theory Spec2Isabelle
  imports Main "HOL-Library.Word"
begin

section \<open>The Rise-Tide water cycle controller\<close>

text \<open>
  A shallow embedding of \<^verbatim>\<open>rise-tide/main/main.ino\<close>. The file holds two sketches of
  the same controller: the "Enhanced UX/UI" sketch (hold time split into hours and
  minutes, five menu pages) and the older "Menu Interface & Fast Scroll" sketch (hold
  time in minutes, four menu pages). Both are embedded; a \<open>variant\<close> argument selects
  the sketch wherever their text differs.

  The globals of the sketch are the fields of the record \<open>sys\<close>. The board is an
  Arduino Uno (wiring note of the file), so \<^verbatim>\<open>int\<close> is a 16-bit two's-complement
  integer and \<^verbatim>\<open>unsigned long\<close> a 32-bit word. An \<^verbatim>\<open>int\<close> is an \<open>int\<close> here with the
  wrap-around written out by \<open>i16\<close>; an \<^verbatim>\<open>unsigned long\<close> is a \<open>32 word\<close>.

  The LCD, the serial log and the buzzer tone are not modelled. What the model keeps
  of them is the time they block: every \<^verbatim>\<open>delay\<close> advances the field \<open>clock\<close>, the
  milliseconds since power-on, and \<^verbatim>\<open>millis()\<close> reads that clock as a 32-bit word.
\<close>

subsection \<open>Data\<close>

datatype variant = EnhancedUI | FastScroll

datatype level = LOW | HIGH

datatype SystemState = STATE_FILLING | STATE_HOLD_HIGH | STATE_DRAINING | STATE_HOLD_LOW

datatype pin = RelayFill | RelayDrain

text \<open>Which call site of \<^verbatim>\<open>adjustSetting\<close> fired: the press-edge branch or the
  held (fast scroll) branch.\<close>

datatype firing = Initial | Repeat

record sys =
  setHours :: int
  setMinutes :: int
  setDurationMins :: int
  setHighDist :: int
  setLowDist :: int
  setMaxCycles :: int
  isRunning :: bool
  isFinished :: bool
  completedCycles :: int
  menuPage :: int
  currentState :: SystemState
  stateStartTime :: "32 word"
  currentDistance :: int
  lastBtnMenu :: level
  lastBtnStart :: level
  lastBtnUp :: level
  lastBtnDown :: level
  btnPressStartTime :: "32 word"
  lastRepeatTime :: "32 word"
  relayFillPin :: level
  relayDrainPin :: level
  clock :: nat
  relayTrace :: "(level \<times> level) list"
  adjustTrace :: "(int \<times> firing \<times> nat) list"

text \<open>
  \<open>setHours\<close> and \<open>setMinutes\<close> belong to the Enhanced UI sketch, \<open>setDurationMins\<close> to
  the Fast Scroll sketch. \<open>relayFillPin\<close> and \<open>relayDrainPin\<close> are the levels last written
  to pins 8 and 9; the relays are active-low, so \<open>LOW\<close> energises the pump.
  \<open>relayTrace\<close> and \<open>adjustTrace\<close> are observation logs, newest entry first: the levels
  of both relay pins after each \<^verbatim>\<open>digitalWrite\<close> to one of them, and the direction, call
  site and time of each call of \<^verbatim>\<open>adjustSetting\<close>.
\<close>

text \<open>One reading of the four buttons at the top of \<^verbatim>\<open>handleButtons\<close>.\<close>

record buttons =
  rMenu :: level
  rUp :: level
  rDown :: level
  rStart :: level

subsection \<open>Primitives\<close>

definition i16 :: "int \<Rightarrow> int" where
  "i16 x = (x + 32768) mod 65536 - 32768"

definition millis :: "sys \<Rightarrow> 32 word" where
  "millis s = word_of_nat (clock s)"

definition delay :: "nat \<Rightarrow> sys \<Rightarrow> sys" where
  "delay ms s = s\<lparr>clock := clock s + ms\<rparr>"

fun digitalWrite :: "pin \<Rightarrow> level \<Rightarrow> sys \<Rightarrow> sys" where
  "digitalWrite RelayFill l s =
     s\<lparr>relayFillPin := l, relayTrace := (l, relayDrainPin s) # relayTrace s\<rparr>"
| "digitalWrite RelayDrain l s =
     s\<lparr>relayDrainPin := l, relayTrace := (relayFillPin s, l) # relayTrace s\<rparr>"

text \<open>
  \<^verbatim>\<open>beep(duration, count)\<close>: \<open>count\<close> pulses of \<open>duration\<close> ms, 100 ms apart. \<open>beepFrom n\<close>
  runs the last \<open>n\<close> rounds of the loop, round \<open>i = count - n\<close> first.
\<close>

primrec beepFrom :: "nat \<Rightarrow> nat \<Rightarrow> nat \<Rightarrow> sys \<Rightarrow> sys" where
  "beepFrom 0 duration count s = s"
| "beepFrom (Suc n) duration count s =
     (let i = count - Suc n;
          s1 = delay duration s;
          s2 = (if 1 < count \<and> i < count - 1 then delay 100 s1 else s1)
      in beepFrom n duration count s2)"

definition beep :: "nat \<Rightarrow> nat \<Rightarrow> sys \<Rightarrow> sys" where
  "beep duration count s = beepFrom count duration count s"

subsection \<open>Settings\<close>

text \<open>\<^verbatim>\<open>adjustSetting(direction)\<close>, one equation per sketch; a \<open>menuPage\<close> outside the
  \<^verbatim>\<open>switch\<close> changes nothing.\<close>

fun adjustSetting :: "variant \<Rightarrow> int \<Rightarrow> sys \<Rightarrow> sys" where
  "adjustSetting EnhancedUI direction s =
     (if menuPage s = 0 then
        (let h = i16 (setHours s + direction);
             h1 = (if h < 0 then 0 else h);
             h2 = (if h1 > 48 then 48 else h1)
         in s\<lparr>setHours := h2\<rparr>)
      else if menuPage s = 1 then
        (let m = i16 (setMinutes s + direction)
         in s\<lparr>setMinutes := (if m < 0 then 59 else if m > 59 then 0 else m)\<rparr>)
      else if menuPage s = 2 then
        (let h = i16 (setHighDist s + direction)
         in s\<lparr>setHighDist := (if h < 2 then 2 else h)\<rparr>)
      else if menuPage s = 3 then
        (let l = i16 (setLowDist s + direction)
         in s\<lparr>setLowDist := (if l < i16 (setHighDist s + 5) then i16 (setHighDist s + 5) else l)\<rparr>)
      else if menuPage s = 4 then
        (let c = i16 (setMaxCycles s + direction)
         in s\<lparr>setMaxCycles := (if c < 1 then 1 else c)\<rparr>)
      else s)"
| "adjustSetting FastScroll direction s =
     (if menuPage s = 0 then
        (let d = i16 (setDurationMins s + direction)
         in s\<lparr>setDurationMins := (if d < 1 then 1 else d)\<rparr>)
      else if menuPage s = 1 then
        (let h = i16 (setHighDist s + direction)
         in s\<lparr>setHighDist := (if h < 2 then 2 else h)\<rparr>)
      else if menuPage s = 2 then
        (let l = i16 (setLowDist s + direction)
         in s\<lparr>setLowDist := (if l < i16 (setHighDist s + 5) then i16 (setHighDist s + 5) else l)\<rparr>)
      else if menuPage s = 3 then
        (let c = i16 (setMaxCycles s + direction)
         in s\<lparr>setMaxCycles := (if c < 1 then 1 else c)\<rparr>)
      else s)"

subsection \<open>The cycle state machine\<close>

text \<open>
  \<^verbatim>\<open>getDistance()\<close> blocks in \<^verbatim>\<open>pulseIn\<close> until the echo arrives and returns the distance
  computed from it. The distance it returns and the time it blocks are inputs.
\<close>

record sensing =
  reading :: int
  echoMs :: nat

definition getDistance :: "sensing \<Rightarrow> sys \<Rightarrow> int \<times> sys" where
  "getDistance sn s = (reading sn, delay (echoMs sn) s)"

text \<open>\<^verbatim>\<open>stopSystem(reason)\<close>; the reason only goes to the serial log.\<close>

definition stopSystem :: "string \<Rightarrow> sys \<Rightarrow> sys" where
  "stopSystem reason s =
     beep 500 1 (digitalWrite RelayDrain HIGH (digitalWrite RelayFill HIGH (s\<lparr>isRunning := False\<rparr>)))"

definition logStatusChange :: "sys \<Rightarrow> sys" where
  "logStatusChange s = beep 100 2 s"

text \<open>The hold time in milliseconds, computed in \<^verbatim>\<open>unsigned long\<close>.\<close>

fun durationMillis :: "variant \<Rightarrow> sys \<Rightarrow> 32 word" where
  "durationMillis EnhancedUI s =
     word_of_int (setHours s) * 3600000 + word_of_int (setMinutes s) * 60000"
| "durationMillis FastScroll s = word_of_int (setDurationMins s) * 60000"

text \<open>The \<^verbatim>\<open>switch (currentState)\<close> of \<^verbatim>\<open>runCycleLogic\<close>, one equation per sketch and
  case label. The arguments after the state are \<open>timeElapsed\<close> and \<open>durationMillis\<close>.\<close>

fun cycleSwitch :: "variant \<Rightarrow> SystemState \<Rightarrow> 32 word \<Rightarrow> 32 word \<Rightarrow> sys \<Rightarrow> sys" where
  "cycleSwitch EnhancedUI STATE_FILLING timeElapsed dur s =
     (let s1 = digitalWrite RelayDrain HIGH (digitalWrite RelayFill LOW s)
      in if currentDistance s1 > 0 \<and> currentDistance s1 \<le> setHighDist s1
         then (digitalWrite RelayFill HIGH s1)\<lparr>currentState := STATE_HOLD_HIGH\<rparr>
         else s1)"
| "cycleSwitch EnhancedUI STATE_HOLD_HIGH timeElapsed dur s =
     (let s1 = digitalWrite RelayDrain HIGH (digitalWrite RelayFill HIGH s)
      in if timeElapsed \<ge> dur
         then s1\<lparr>currentState := STATE_DRAINING, stateStartTime := millis s1\<rparr>
         else s1)"
| "cycleSwitch EnhancedUI STATE_DRAINING timeElapsed dur s =
     (let s1 = digitalWrite RelayDrain LOW (digitalWrite RelayFill HIGH s)
      in if currentDistance s1 \<ge> setLowDist s1
         then (digitalWrite RelayDrain HIGH s1)\<lparr>currentState := STATE_HOLD_LOW\<rparr>
         else s1)"
| "cycleSwitch EnhancedUI STATE_HOLD_LOW timeElapsed dur s =
     (let s1 = digitalWrite RelayDrain HIGH (digitalWrite RelayFill HIGH s)
      in if timeElapsed \<ge> dur
         then (let s2 = s1\<lparr>completedCycles := i16 (completedCycles s1 + 1)\<rparr>
               in if completedCycles s2 \<ge> setMaxCycles s2
                  then beep 500 3 ((stopSystem ''DONE'' s2)\<lparr>isFinished := True\<rparr>)
                  else s2\<lparr>currentState := STATE_FILLING, stateStartTime := millis s2\<rparr>)
         else s1)"
| "cycleSwitch FastScroll STATE_FILLING timeElapsed dur s =
     (let s1 = digitalWrite RelayDrain HIGH (digitalWrite RelayFill LOW s)
      in if currentDistance s1 > 0 \<and> currentDistance s1 \<le> setHighDist s1
         then (let s2 = digitalWrite RelayFill HIGH s1
               in s2\<lparr>currentState := STATE_HOLD_HIGH, stateStartTime := millis s2\<rparr>)
         else s1)"
| "cycleSwitch FastScroll STATE_HOLD_HIGH timeElapsed dur s =
     (let s1 = digitalWrite RelayDrain HIGH (digitalWrite RelayFill HIGH s)
      in if timeElapsed \<ge> dur
         then s1\<lparr>currentState := STATE_DRAINING, stateStartTime := millis s1\<rparr>
         else s1)"
| "cycleSwitch FastScroll STATE_DRAINING timeElapsed dur s =
     (let s1 = digitalWrite RelayDrain LOW (digitalWrite RelayFill HIGH s)
      in if currentDistance s1 \<ge> setLowDist s1
         then (let s2 = digitalWrite RelayDrain HIGH s1
               in s2\<lparr>currentState := STATE_HOLD_LOW, stateStartTime := millis s2\<rparr>)
         else s1)"
| "cycleSwitch FastScroll STATE_HOLD_LOW timeElapsed dur s =
     (let s1 = digitalWrite RelayDrain HIGH (digitalWrite RelayFill HIGH s)
      in if timeElapsed \<ge> dur
         then (let s2 = s1\<lparr>completedCycles := i16 (completedCycles s1 + 1)\<rparr>
               in if completedCycles s2 \<ge> setMaxCycles s2
                  then beep 500 3 ((stopSystem ''ALL CYCLES DONE'' s2)\<lparr>isFinished := True\<rparr>)
                  else s2\<lparr>currentState := STATE_FILLING, stateStartTime := millis s2\<rparr>)
         else s1)"

text \<open>\<^verbatim>\<open>runCycleLogic()\<close>. The running screen is not modelled; its \<^verbatim>\<open>delay(200)\<close> is.\<close>

definition runCycleLogic :: "variant \<Rightarrow> sensing \<Rightarrow> sys \<Rightarrow> sys" where
  "runCycleLogic v sn s0 =
     (let (d, sa) = getDistance sn s0;
          s = sa\<lparr>currentDistance := d\<rparr>;
          timeElapsed = millis s - stateStartTime s;
          dur = durationMillis v s;
          oldState = currentState s;
          s1 = cycleSwitch v (currentState s) timeElapsed dur s;
          s2 = (if currentState s1 \<noteq> oldState \<and> isRunning s1 then logStatusChange s1 else s1)
      in if isRunning s2 then delay 200 s2 else s2)"

subsection \<open>Buttons and menu\<close>

fun MAX_PAGES :: "variant \<Rightarrow> int" where
  "MAX_PAGES EnhancedUI = 4"
| "MAX_PAGES FastScroll = 3"

fun stopReason :: "variant \<Rightarrow> string" where
  "stopReason EnhancedUI = ''STOPPED''"
| "stopReason FastScroll = ''STOPPED BY USER''"

text \<open>A call of \<^verbatim>\<open>adjustSetting\<close> from \<^verbatim>\<open>handleButtons\<close>, entered in \<open>adjustTrace\<close>.\<close>

definition fire :: "variant \<Rightarrow> int \<Rightarrow> firing \<Rightarrow> sys \<Rightarrow> sys" where
  "fire v direction k s =
     (adjustSetting v direction s)\<lparr>adjustTrace := (direction, k, clock s) # adjustTrace s\<rparr>"

text \<open>Part 1 of \<^verbatim>\<open>handleButtons\<close>: the start/stop button.\<close>

definition startStopButton :: "variant \<Rightarrow> buttons \<Rightarrow> sys \<Rightarrow> sys" where
  "startStopButton v b s =
     (let s1 = (if rStart b = LOW \<and> lastBtnStart s = HIGH
                then delay 200
                       (if \<not> isRunning s
                        then beep 200 1
                               (s\<lparr>isRunning := True, isFinished := False, completedCycles := 0,
                                   currentState := STATE_FILLING, stateStartTime := millis s\<rparr>)
                        else stopSystem (stopReason v) s)
                else s)
      in s1\<lparr>lastBtnStart := rStart b\<rparr>)"

text \<open>Part 2: the menu button.\<close>

definition menuButton :: "variant \<Rightarrow> buttons \<Rightarrow> sys \<Rightarrow> sys" where
  "menuButton v b s =
     (let s1 = (if rMenu b = LOW \<and> lastBtnMenu s = HIGH
                then (let p = i16 (menuPage s + 1)
                      in delay 200 (s\<lparr>menuPage := (if p > MAX_PAGES v then 0 else p)\<rparr>))
                else s)
      in s1\<lparr>lastBtnMenu := rMenu b\<rparr>)"

text \<open>
  Parts 3 and 4 are the same text for the Up button with direction \<open>1\<close> and the Down
  button with direction \<open>-1\<close>: \<open>scrollButton\<close> is that text, given the button's reading
  \<open>r\<close> and its stored previous level \<open>prev\<close>. Both buttons share \<open>btnPressStartTime\<close>
  and \<open>lastRepeatTime\<close>.
\<close>

definition scrollButton :: "variant \<Rightarrow> int \<Rightarrow> level \<Rightarrow> level \<Rightarrow> sys \<Rightarrow> sys" where
  "scrollButton v direction r prev s =
     (if r = LOW then
        (if prev = HIGH then
           (let s1 = fire v direction Initial s;
                s2 = s1\<lparr>btnPressStartTime := millis s1\<rparr>;
                s3 = s2\<lparr>lastRepeatTime := millis s2\<rparr>
            in delay 20 s3)
         else if millis s - btnPressStartTime s > 500 then
           (if millis s - lastRepeatTime s > 100 then
              (let s1 = fire v direction Repeat s
               in s1\<lparr>lastRepeatTime := millis s1\<rparr>)
            else s)
         else s)
      else s)"

definition upButton :: "variant \<Rightarrow> buttons \<Rightarrow> sys \<Rightarrow> sys" where
  "upButton v b s = (scrollButton v 1 (rUp b) (lastBtnUp s) s)\<lparr>lastBtnUp := rUp b\<rparr>"

definition downButton :: "variant \<Rightarrow> buttons \<Rightarrow> sys \<Rightarrow> sys" where
  "downButton v b s = (scrollButton v (-1) (rDown b) (lastBtnDown s) s)\<lparr>lastBtnDown := rDown b\<rparr>"

definition handleButtons :: "variant \<Rightarrow> buttons \<Rightarrow> sys \<Rightarrow> sys" where
  "handleButtons v b s =
     (let s1 = startStopButton v b s
      in if isRunning s1 then s1
         else downButton v b (upButton v b (menuButton v b s1)))"

text \<open>What \<^verbatim>\<open>displayMenu()\<close> puts on the LCD: the finished screen with the cycle count,
  or the page number and the value printed for it.\<close>

datatype view = DoneView int | PageView int "int option"

fun pageValue :: "variant \<Rightarrow> sys \<Rightarrow> int option" where
  "pageValue EnhancedUI s =
     (if menuPage s = 0 then Some (setHours s)
      else if menuPage s = 1 then Some (setMinutes s)
      else if menuPage s = 2 then Some (setHighDist s)
      else if menuPage s = 3 then Some (setLowDist s)
      else if menuPage s = 4 then Some (setMaxCycles s)
      else None)"
| "pageValue FastScroll s =
     (if menuPage s = 0 then Some (setDurationMins s)
      else if menuPage s = 1 then Some (setHighDist s)
      else if menuPage s = 2 then Some (setLowDist s)
      else if menuPage s = 3 then Some (setMaxCycles s)
      else None)"

definition displayMenu :: "variant \<Rightarrow> sys \<Rightarrow> view" where
  "displayMenu v s =
     (if isFinished s then DoneView (completedCycles s)
      else PageView (menuPage s) (pageValue v s))"

subsection \<open>Power-on, setup and the main loop\<close>

text \<open>
  The globals as initialised; the levels of the relay pins before the first
  \<^verbatim>\<open>digitalWrite\<close> are not set by the sketch and are arguments. A field of the other
  sketch holds that sketch's initial value.
\<close>

definition globals :: "level \<Rightarrow> level \<Rightarrow> sys" where
  "globals f d =
     \<lparr>setHours = 1, setMinutes = 1, setDurationMins = 360, setHighDist = 10, setLowDist = 50,
      setMaxCycles = 1, isRunning = False, isFinished = False, completedCycles = 0,
      menuPage = 0, currentState = STATE_FILLING, stateStartTime = 0, currentDistance = 0,
      lastBtnMenu = HIGH, lastBtnStart = HIGH, lastBtnUp = HIGH, lastBtnDown = HIGH,
      btnPressStartTime = 0, lastRepeatTime = 0, relayFillPin = f, relayDrainPin = d,
      clock = 0, relayTrace = [], adjustTrace = []\<rparr>"

fun introDelay :: "variant \<Rightarrow> nat" where
  "introDelay EnhancedUI = 1500"
| "introDelay FastScroll = 1000"

definition setup_board :: "variant \<Rightarrow> sys \<Rightarrow> sys" where
  "setup_board v s =
     delay (introDelay v) (beep 50 2 (digitalWrite RelayDrain HIGH (digitalWrite RelayFill HIGH s)))"

text \<open>
  One round of \<^verbatim>\<open>loop()\<close>. Its input is the reading of the buttons, the answer of
  the distance sensor, and \<open>idleMs\<close>, the time that passed in statements the model does
  not time (LCD and serial traffic) since the round before.
\<close>

record input =
  btn :: buttons
  sense :: sensing
  idleMs :: nat

definition loop :: "variant \<Rightarrow> input \<Rightarrow> sys \<Rightarrow> sys" where
  "loop v inp s =
     (let s1 = handleButtons v (btn inp) (delay (idleMs inp) s)
      in if isRunning s1 then runCycleLogic v (sense inp) s1 else s1)"

text \<open>The view of a round: \<^verbatim>\<open>displayMenu\<close> is called when the system is not running.\<close>

definition shown :: "variant \<Rightarrow> input \<Rightarrow> sys \<Rightarrow> view option" where
  "shown v inp s =
     (let s1 = handleButtons v (btn inp) (delay (idleMs inp) s)
      in if isRunning s1 then None else Some (displayMenu v s1))"

text \<open>
  The states the sketch can be in between two statements of \<^verbatim>\<open>loop()\<close>: after
  \<^verbatim>\<open>setup()\<close>, after any time has passed, after \<^verbatim>\<open>handleButtons()\<close>, and after
  \<^verbatim>\<open>runCycleLogic()\<close>, which is only called while running.
\<close>

inductive reachable :: "variant \<Rightarrow> sys \<Rightarrow> bool" for v :: variant where
  boot: "reachable v (setup_board v (globals f d))"
| wait: "reachable v s \<Longrightarrow> reachable v (delay t s)"
| buttons: "reachable v s \<Longrightarrow> reachable v (handleButtons v b s)"
| cycle: "reachable v s \<Longrightarrow> isRunning s \<Longrightarrow> reachable v (runCycleLogic v sn s)"

subsection \<open>Sequences of calls and rounds\<close>

text \<open>A call of \<^verbatim>\<open>adjustSetting\<close> on a chosen menu page, given as (page, direction),
  and a sequence of such calls.\<close>

definition adjustOnPage :: "variant \<Rightarrow> int \<times> int \<Rightarrow> sys \<Rightarrow> sys" where
  "adjustOnPage v pd s = adjustSetting v (snd pd) (s\<lparr>menuPage := fst pd\<rparr>)"

definition adjustSeq :: "variant \<Rightarrow> (int \<times> int) list \<Rightarrow> sys \<Rightarrow> sys" where
  "adjustSeq v ops s = fold (adjustOnPage v) ops s"

text \<open>The lower bounds the two sketches clamp to.\<close>

fun floors :: "variant \<Rightarrow> sys \<Rightarrow> bool" where
  "floors EnhancedUI s =
     (0 \<le> setHours s \<and> 0 \<le> setMinutes s \<and> setMinutes s \<le> 59 \<and>
      2 \<le> setHighDist s \<and> 1 \<le> setMaxCycles s)"
| "floors FastScroll s =
     (1 \<le> setDurationMins s \<and> 2 \<le> setHighDist s \<and> 1 \<le> setMaxCycles s)"

text \<open>Rounds of the main loop, one per input.\<close>

definition rounds :: "variant \<Rightarrow> input list \<Rightarrow> sys \<Rightarrow> sys" where
  "rounds v inps s = fold (loop v) inps s"

text \<open>No press-edge of the start/stop button in a sequence of rounds, given the level
  stored before the first of them.\<close>

fun noStartEdge :: "level \<Rightarrow> input list \<Rightarrow> bool" where
  "noStartEdge prev [] = True"
| "noStartEdge prev (i # is) =
     (\<not> (rStart (btn i) = LOW \<and> prev = HIGH) \<and> noStartEdge (rStart (btn i)) is)"

subsection \<open>Invariant of the controller\<close>

text \<open>
  What holds between the statements of \<^verbatim>\<open>loop()\<close>: a relay is energised only while
  running, the fill relay only in the Filling phase and the drain relay only in the
  Draining phase; no \<^verbatim>\<open>digitalWrite\<close> ever left both relays energised; while running the
  cycle count is below its target and the finished flag is clear.
\<close>

definition cinv :: "sys \<Rightarrow> bool" where
  "cinv s \<longleftrightarrow>
     (\<not> isRunning s \<longrightarrow> relayFillPin s = HIGH \<and> relayDrainPin s = HIGH) \<and>
     (currentState s = STATE_FILLING \<longrightarrow> relayDrainPin s = HIGH) \<and>
     (relayFillPin s = LOW \<longrightarrow> currentState s = STATE_FILLING) \<and>
     (relayDrainPin s = LOW \<longrightarrow> currentState s = STATE_DRAINING) \<and>
     relayTrace s \<noteq> [] \<and> hd (relayTrace s) = (relayFillPin s, relayDrainPin s) \<and>
     (\<forall>p \<in> set (relayTrace s). p \<noteq> (LOW, LOW)) \<and>
     (isRunning s \<longrightarrow>
        \<not> isFinished s \<and> 0 \<le> completedCycles s \<and> completedCycles s < setMaxCycles s) \<and>
     1 \<le> setMaxCycles s \<and> setMaxCycles s \<le> 32767"

text \<open>Two states agree on the run-time part: flags, phase, timer, count and relays.\<close>

definition runtimeEq :: "sys \<Rightarrow> sys \<Rightarrow> bool" where
  "runtimeEq t s \<longleftrightarrow>
     isRunning t = isRunning s \<and> isFinished t = isFinished s \<and>
     completedCycles t = completedCycles s \<and> currentState t = currentState s \<and>
     stateStartTime t = stateStartTime s \<and> relayFillPin t = relayFillPin s \<and>
     relayDrainPin t = relayDrainPin s \<and> relayTrace t = relayTrace s \<and>
     lastBtnStart t = lastBtnStart s"

subsection \<open>A scripted run\<close>

text \<open>
  A run from power-on with both relay pins low: one press of Down on page 0, a press
  of Start, 61 s of filling until the level reads 9 cm, a round 10 ms later, a reading
  of 60 cm after 5 s, and a last round after \<open>h\<close> ms.
\<close>

definition powerOn :: "variant \<Rightarrow> sys" where
  "powerOn v = setup_board v (globals LOW LOW)"

definition released :: buttons where
  "released = \<lparr>rMenu = HIGH, rUp = HIGH, rDown = HIGH, rStart = HIGH\<rparr>"

definition poll :: "buttons \<Rightarrow> int \<Rightarrow> nat \<Rightarrow> input" where
  "poll b r t = \<lparr>btn = b, sense = \<lparr>reading = r, echoMs = 2\<rparr>, idleMs = t\<rparr>"

definition script :: "nat \<Rightarrow> input list" where
  "script h =
     [poll (released\<lparr>rDown := LOW\<rparr>) 40 10,
      poll released 40 10,
      poll (released\<lparr>rStart := LOW\<rparr>) 40 10,
      poll released 9 61000,
      poll released 9 10,
      poll released 60 5000,
      poll released 60 h]"

subsection \<open>Hold tracking for the scroll buttons\<close>

text \<open>The time of an entry of \<open>adjustTrace\<close>.\<close>

definition fireTime :: "int \<times> firing \<times> nat \<Rightarrow> nat" where
  "fireTime e = snd (snd e)"

text \<open>
  What the shared time stamps mean while a scroll button is held. \<open>m\<close> and \<open>m'\<close> say,
  for the two buttons, since which poll each has read \<open>LOW\<close> without a break (\<open>None\<close>: it
  was released at the last poll); \<open>old\<close> are the entries of \<open>adjustTrace\<close> made so far.
  Then \<open>btnPressStartTime\<close> and \<open>lastRepeatTime\<close> are \<^verbatim>\<open>millis()\<close> values of real times
  \<open>P\<close> and \<open>R\<close> in the past, \<open>P\<close> not before the start of either hold and \<open>R\<close> not before
  any entry made so far.
\<close>

definition timingInv :: "sys \<Rightarrow> nat option \<Rightarrow> nat option \<Rightarrow> (int \<times> firing \<times> nat) list \<Rightarrow> bool" where
  "timingInv s m m' old \<longleftrightarrow>
     (\<forall>e \<in> set old. fireTime e \<le> clock s) \<and>
     (m \<noteq> None \<or> m' \<noteq> None \<longrightarrow>
        (\<exists>P R. btnPressStartTime s = word_of_nat P \<and> lastRepeatTime s = word_of_nat R \<and>
               P \<le> clock s \<and> R \<le> clock s \<and>
               (\<forall>te. m = Some te \<longrightarrow> te \<le> P) \<and> (\<forall>te. m' = Some te \<longrightarrow> te \<le> P) \<and>
               (\<forall>e \<in> set old. fireTime e \<le> R)))"

text \<open>The start of the current hold after a poll at time \<open>tq\<close> that read \<open>r\<close>.\<close>

definition holdNext :: "level \<Rightarrow> nat \<Rightarrow> nat option \<Rightarrow> nat option" where
  "holdNext r tq m = (if r = HIGH then None else (case m of None \<Rightarrow> Some tq | Some te \<Rightarrow> Some te))"

text \<open>The reading of the button that scrolls in direction \<open>d\<close>: Up for \<open>1\<close>, else Down.\<close>

fun scrollReading :: "int \<Rightarrow> buttons \<Rightarrow> level" where
  "scrollReading d b = (if d = 1 then rUp b else rDown b)"

text \<open>Rounds of the loop together with the start of the current hold of one button.\<close>

definition holdStep :: "variant \<Rightarrow> int \<Rightarrow> input \<Rightarrow> sys \<times> nat option \<Rightarrow> sys \<times> nat option" where
  "holdStep v d q sm =
     (loop v q (fst sm),
      holdNext (scrollReading d (btn q)) (clock (fst sm) + idleMs q) (snd sm))"

definition holdTrack :: "variant \<Rightarrow> int \<Rightarrow> input list \<Rightarrow> sys \<Rightarrow> sys \<times> nat option" where
  "holdTrack v d inps s0 = fold (holdStep v d) inps (s0, None)"

text \<open>Up held through three rounds, 10 ms, 310 ms and 610 ms after power-on is done.\<close>

definition holdUp :: "input list" where
  "holdUp =
     [poll (released\<lparr>rUp := LOW\<rparr>) 40 10,
      poll (released\<lparr>rUp := LOW\<rparr>) 40 300,
      poll (released\<lparr>rUp := LOW\<rparr>) 40 300]"

text \<open>
  Up pressed; Start pressed while Up is still held; a round with all buttons
  released; Up and Start pressed together.
\<close>

definition staleScript :: "input list" where
  "staleScript =
     [poll (released\<lparr>rUp := LOW\<rparr>) 40 10,
      poll (released\<lparr>rUp := LOW, rStart := LOW\<rparr>) 40 10,
      poll released 40 10,
      poll (released\<lparr>rUp := LOW, rStart := LOW\<rparr>) 40 10]"

text \<open>
  Down pressed on the Hours page and released; Menu pressed; Up pressed on the Minutes
  page; Start pressed while Up is still held; four rounds with all buttons released in
  which the run fills, holds, drains, holds and finishes; Up pressed again, and still
  held 150 ms later.
\<close>

definition staleAfterDone :: "input list" where
  "staleAfterDone =
     [poll (released\<lparr>rDown := LOW\<rparr>) 40 10,
      poll released 40 10,
      poll (released\<lparr>rMenu := LOW\<rparr>) 40 10,
      poll (released\<lparr>rUp := LOW\<rparr>) 40 10,
      poll (released\<lparr>rUp := LOW, rStart := LOW\<rparr>) 40 10,
      poll released 9 1000,
      poll released 9 130000,
      poll released 60 5000,
      poll released 60 130000,
      poll (released\<lparr>rUp := LOW\<rparr>) 60 10,
      poll (released\<lparr>rUp := LOW\<rparr>) 60 150]"

section \<open>Properties\<close>

subsection \<open>Arithmetic and timing of the primitives\<close>

lemma i16_range: "- 32768 \<le> i16 x \<and> i16 x \<le> 32767"
  using pos_mod_sign [of 65536 "x + 32768"] pos_mod_bound [of 65536 "x + 32768"]
  by (simp add: i16_def)

lemma i16_id: "- 32768 \<le> x \<Longrightarrow> x \<le> 32767 \<Longrightarrow> i16 x = x"
  by (simp add: i16_def)

lemma beepFrom_eq:
  "n \<le> count \<Longrightarrow>
   beepFrom n duration count s = s\<lparr>clock := clock s + n * duration + 100 * (n - 1)\<rparr>"
proof (induction n arbitrary: s)
  case 0
  then show ?case by simp
next
  case (Suc n)
  then show ?case by (cases n) (auto simp: delay_def Let_def)
qed

lemma beep_eq:
  "beep duration count s = s\<lparr>clock := clock s + count * duration + 100 * (count - 1)\<rparr>"
  by (simp add: beep_def beepFrom_eq)

subsection \<open>Settings\<close>

text \<open>On every page but the High page \<^verbatim>\<open>adjustSetting\<close> keeps the gap of 5 between the
  two levels, whatever the direction.\<close>

lemma gap_kept_off_high_page:
  assumes "setHighDist s + 5 \<le> setLowDist s" "- 32768 \<le> setHighDist s" "setLowDist s \<le> 32767"
    and "menuPage s \<noteq> (case v of EnhancedUI \<Rightarrow> 2 | FastScroll \<Rightarrow> 1)"
  shows "setHighDist (adjustSetting v d s) + 5 \<le> setLowDist (adjustSetting v d s)"
proof -
  have "i16 (setHighDist s + 5) = setHighDist s + 5"
    using assms(1-3) by (intro i16_id) simp_all
  then show ?thesis
    using assms(1,4) by (cases v) (simp_all add: Let_def)
qed

text \<open>
  C1. Claim: from valid settings (\<open>setLowDist \<ge> setHighDist + 5\<close>) every call of
  \<^verbatim>\<open>adjustSetting\<close> with direction \<open>+1\<close> or \<open>-1\<close> on any page keeps
  \<open>setLowDist \<ge> setHighDist + 5\<close>. The sketch clamps \<open>setLowDist\<close> only on the Low page
  (its comment there: "Safety gap"), which keeps the gap on every page but one
  (\<open>gap_kept_off_high_page\<close>); on the High page it raises \<open>setHighDist\<close> and leaves
  \<open>setLowDist\<close> alone. The theorem runs both sketches from the valid settings
  \<open>setHighDist = 10\<close>, \<open>setLowDist = 15\<close> on the High page with direction \<open>+1\<close>: the result
  is \<open>setHighDist = 11\<close>, \<open>setLowDist = 15\<close>, a gap of 4. From the settings at power-on
  (10 and 50) thirty-six such calls give \<open>setHighDist = 46\<close>, \<open>setLowDist = 50\<close>.
\<close>

theorem gap_broken_on_high_page:
  "(let s = (globals HIGH HIGH)\<lparr>setLowDist := 15, menuPage := 2\<rparr>;
        s' = adjustSetting EnhancedUI 1 s
    in setHighDist s + 5 \<le> setLowDist s \<and> setHighDist s' = 11 \<and> setLowDist s' = 15) \<and>
   (let s = (globals HIGH HIGH)\<lparr>setLowDist := 15, menuPage := 1\<rparr>;
        s' = adjustSetting FastScroll 1 s
    in setHighDist s + 5 \<le> setLowDist s \<and> setHighDist s' = 11 \<and> setLowDist s' = 15) \<and>
   setHighDist (adjustSeq EnhancedUI (replicate 36 (2, 1)) (globals HIGH HIGH)) = 46 \<and>
   setLowDist (adjustSeq EnhancedUI (replicate 36 (2, 1)) (globals HIGH HIGH)) = 50 \<and>
   setHighDist (adjustSeq FastScroll (replicate 36 (1, 1)) (globals HIGH HIGH)) = 46 \<and>
   setLowDist (adjustSeq FastScroll (replicate 36 (1, 1)) (globals HIGH HIGH)) = 50"
  by (simp add: adjustSeq_def adjustOnPage_def globals_def i16_def Let_def eval_nat_numeral)

lemma floors_adjustOnPage:
  "floors v s \<Longrightarrow> snd pd = - 1 \<Longrightarrow> floors v (adjustOnPage v pd s)"
  by (cases v) (simp_all add: adjustOnPage_def Let_def)

text \<open>
  C7, as the claim states it, fails: in the Enhanced UI sketch the hold time is
  \<open>setHours\<close> and \<open>setMinutes\<close>, the hours stop at 0 and the minutes wrap within 0..59, so
  two decrements from the initial settings (1 h 1 min) give a hold time of 0 ms.
\<close>

theorem hold_duration_floor_counterexample:
  "floors EnhancedUI (globals HIGH HIGH) \<and>
   durationMillis EnhancedUI
     (adjustSeq EnhancedUI [(0, - 1), (1, - 1)] (globals HIGH HIGH)) = 0"
  by (simp add: adjustSeq_def adjustOnPage_def globals_def i16_def Let_def)

text \<open>
  C7, amended: from settings at their floors or above, after every sequence of calls
  of \<^verbatim>\<open>adjustSetting(-1)\<close> on any pages, \<open>setHighDist \<ge> 2\<close> and \<open>setMaxCycles \<ge> 1\<close>; in the
  Fast Scroll sketch \<open>setDurationMins \<ge> 1\<close>; in the Enhanced UI sketch \<open>setHours \<ge> 0\<close>
  and \<open>0 \<le> setMinutes \<le> 59\<close>.
\<close>

theorem floors_after_decrements:
  "floors v s \<Longrightarrow> \<forall>pd \<in> set ops. snd pd = - 1 \<Longrightarrow> floors v (adjustSeq v ops s)"
  unfolding adjustSeq_def
proof (induction ops arbitrary: s)
  case Nil
  then show ?case by simp
next
  case (Cons pd ops)
  then show ?case by (simp add: floors_adjustOnPage)
qed

theorem floors_after_decrements_witness:
  "floors FastScroll
     (adjustSeq FastScroll [(0, - 1), (1, - 1), (3, - 1)]
        ((globals HIGH HIGH)\<lparr>setDurationMins := 1, setHighDist := 2\<rparr>))"
  using floors_after_decrements
    [of FastScroll "(globals HIGH HIGH)\<lparr>setDurationMins := 1, setHighDist := 2\<rparr>"
        "[(0, - 1), (1, - 1), (3, - 1)]"]
  by (simp add: globals_def)

text \<open>
  C8, as the claim states it, fails: the Enhanced UI sketch caps \<open>setHours\<close> at 48
  ("Max 48 hours"), so direction \<open>+1\<close> on the Hours page at 48 leaves 48.
\<close>

theorem hours_capped_counterexample:
  "\<not> (\<forall>s. menuPage s = 0 \<longrightarrow> setHours (adjustSetting EnhancedUI 1 s) = setHours s + 1)"
proof
  assume a: "\<forall>s. menuPage s = 0 \<longrightarrow> setHours (adjustSetting EnhancedUI 1 s) = setHours s + 1"
  have "menuPage ((globals HIGH HIGH)\<lparr>setHours := 48\<rparr>) = 0"
    by (simp add: globals_def)
  with a have "setHours (adjustSetting EnhancedUI 1 ((globals HIGH HIGH)\<lparr>setHours := 48\<rparr>))
      = setHours ((globals HIGH HIGH)\<lparr>setHours := 48\<rparr>) + 1"
    by blast
  then show False
    by (simp add: globals_def i16_def Let_def)
qed

text \<open>
  C8, amended: direction \<open>+1\<close> raises the selected field by exactly one on the High
  page, the Cycles page and the Fast Scroll Duration page, for every value from the
  field's floor up to 32766 (the largest \<^verbatim>\<open>int\<close> less one), and on the Low page when also
  \<open>setLowDist \<ge> setHighDist + 5\<close>. In the Enhanced UI sketch \<open>setHours\<close> rises by one
  below 48 and stays at 48, and \<open>setMinutes\<close> rises by one below 59 and goes from 59 to 0.
\<close>

theorem increment_by_one:
  "(menuPage s = 2 \<and> 2 \<le> setHighDist s \<and> setHighDist s < 32767 \<longrightarrow>
      setHighDist (adjustSetting EnhancedUI 1 s) = setHighDist s + 1) \<and>
   (menuPage s = 1 \<and> 2 \<le> setHighDist s \<and> setHighDist s < 32767 \<longrightarrow>
      setHighDist (adjustSetting FastScroll 1 s) = setHighDist s + 1) \<and>
   (menuPage s = 3 \<and> 2 \<le> setHighDist s \<and> setHighDist s + 5 \<le> setLowDist s \<and>
    setLowDist s < 32767 \<longrightarrow>
      setLowDist (adjustSetting EnhancedUI 1 s) = setLowDist s + 1) \<and>
   (menuPage s = 2 \<and> 2 \<le> setHighDist s \<and> setHighDist s + 5 \<le> setLowDist s \<and>
    setLowDist s < 32767 \<longrightarrow>
      setLowDist (adjustSetting FastScroll 1 s) = setLowDist s + 1) \<and>
   (menuPage s = 4 \<and> 1 \<le> setMaxCycles s \<and> setMaxCycles s < 32767 \<longrightarrow>
      setMaxCycles (adjustSetting EnhancedUI 1 s) = setMaxCycles s + 1) \<and>
   (menuPage s = 3 \<and> 1 \<le> setMaxCycles s \<and> setMaxCycles s < 32767 \<longrightarrow>
      setMaxCycles (adjustSetting FastScroll 1 s) = setMaxCycles s + 1) \<and>
   (menuPage s = 0 \<and> 1 \<le> setDurationMins s \<and> setDurationMins s < 32767 \<longrightarrow>
      setDurationMins (adjustSetting FastScroll 1 s) = setDurationMins s + 1) \<and>
   (menuPage s = 0 \<and> 0 \<le> setHours s \<and> setHours s \<le> 48 \<longrightarrow>
      setHours (adjustSetting EnhancedUI 1 s) =
        (if setHours s = 48 then 48 else setHours s + 1)) \<and>
   (menuPage s = 1 \<and> 0 \<le> setMinutes s \<and> setMinutes s \<le> 59 \<longrightarrow>
      setMinutes (adjustSetting EnhancedUI 1 s) =
        (if setMinutes s = 59 then 0 else setMinutes s + 1))"
proof (intro conjI impI)
  assume "menuPage s = 2 \<and> 2 \<le> setHighDist s \<and> setHighDist s < 32767"
  then show "setHighDist (adjustSetting EnhancedUI 1 s) = setHighDist s + 1"
    by (simp add: Let_def i16_id)
next
  assume "menuPage s = 1 \<and> 2 \<le> setHighDist s \<and> setHighDist s < 32767"
  then show "setHighDist (adjustSetting FastScroll 1 s) = setHighDist s + 1"
    by (simp add: Let_def i16_id)
next
  assume "menuPage s = 3 \<and> 2 \<le> setHighDist s \<and> setHighDist s + 5 \<le> setLowDist s \<and>
    setLowDist s < 32767"
  then show "setLowDist (adjustSetting EnhancedUI 1 s) = setLowDist s + 1"
    by (simp add: Let_def i16_id)
next
  assume "menuPage s = 2 \<and> 2 \<le> setHighDist s \<and> setHighDist s + 5 \<le> setLowDist s \<and>
    setLowDist s < 32767"
  then show "setLowDist (adjustSetting FastScroll 1 s) = setLowDist s + 1"
    by (simp add: Let_def i16_id)
next
  assume "menuPage s = 4 \<and> 1 \<le> setMaxCycles s \<and> setMaxCycles s < 32767"
  then show "setMaxCycles (adjustSetting EnhancedUI 1 s) = setMaxCycles s + 1"
    by (simp add: Let_def i16_id)
next
  assume "menuPage s = 3 \<and> 1 \<le> setMaxCycles s \<and> setMaxCycles s < 32767"
  then show "setMaxCycles (adjustSetting FastScroll 1 s) = setMaxCycles s + 1"
    by (simp add: Let_def i16_id)
next
  assume "menuPage s = 0 \<and> 1 \<le> setDurationMins s \<and> setDurationMins s < 32767"
  then show "setDurationMins (adjustSetting FastScroll 1 s) = setDurationMins s + 1"
    by (simp add: Let_def i16_id)
next
  assume "menuPage s = 0 \<and> 0 \<le> setHours s \<and> setHours s \<le> 48"
  then show "setHours (adjustSetting EnhancedUI 1 s) =
      (if setHours s = 48 then 48 else setHours s + 1)"
    by (simp add: Let_def i16_id)
next
  assume "menuPage s = 1 \<and> 0 \<le> setMinutes s \<and> setMinutes s \<le> 59"
  then show "setMinutes (adjustSetting EnhancedUI 1 s) =
      (if setMinutes s = 59 then 0 else setMinutes s + 1)"
    by (simp add: Let_def i16_id)
qed

theorem increment_by_one_witness:
  "setHighDist (adjustSetting EnhancedUI 1 ((globals HIGH HIGH)\<lparr>menuPage := 2\<rparr>)) = 11 \<and>
   setHighDist (adjustSetting FastScroll 1 ((globals HIGH HIGH)\<lparr>menuPage := 1\<rparr>)) = 11 \<and>
   setLowDist (adjustSetting EnhancedUI 1 ((globals HIGH HIGH)\<lparr>menuPage := 3\<rparr>)) = 51 \<and>
   setLowDist (adjustSetting FastScroll 1 ((globals HIGH HIGH)\<lparr>menuPage := 2\<rparr>)) = 51 \<and>
   setMaxCycles (adjustSetting EnhancedUI 1 ((globals HIGH HIGH)\<lparr>menuPage := 4\<rparr>)) = 2 \<and>
   setMaxCycles (adjustSetting FastScroll 1 ((globals HIGH HIGH)\<lparr>menuPage := 3\<rparr>)) = 2 \<and>
   setDurationMins (adjustSetting FastScroll 1 (globals HIGH HIGH)) = 361 \<and>
   setHours (adjustSetting EnhancedUI 1 (globals HIGH HIGH)) = 2 \<and>
   setMinutes
     (adjustSetting EnhancedUI 1 ((globals HIGH HIGH)\<lparr>menuPage := 1, setMinutes := 59\<rparr>)) = 0"
  using increment_by_one [of "(globals HIGH HIGH)\<lparr>menuPage := 2\<rparr>"]
    increment_by_one [of "(globals HIGH HIGH)\<lparr>menuPage := 1\<rparr>"]
    increment_by_one [of "(globals HIGH HIGH)\<lparr>menuPage := 3\<rparr>"]
    increment_by_one [of "(globals HIGH HIGH)\<lparr>menuPage := 4\<rparr>"]
    increment_by_one [of "globals HIGH HIGH"]
    increment_by_one [of "(globals HIGH HIGH)\<lparr>menuPage := 1, setMinutes := 59\<rparr>"]
  by (simp add: globals_def)

subsection \<open>Invariant and frame lemmas\<close>

lemma cinv_clock [simp]: "cinv (s\<lparr>clock := c\<rparr>) = cinv s"
  by (simp add: cinv_def)

lemma cinv_delay [simp]: "cinv (delay n s) = cinv s"
  by (simp add: delay_def)

lemma cinv_beep [simp]: "cinv (beep d c s) = cinv s"
  by (simp add: beep_eq)

lemma cinv_boot: "cinv (setup_board v (globals f d))"
  by (simp add: setup_board_def) (simp add: cinv_def globals_def)

lemma cinv_stopSystem: "cinv s \<Longrightarrow> cinv (stopSystem r s)"
  by (simp add: stopSystem_def) (simp add: cinv_def)

lemma cinv_startStopButton: "cinv s \<Longrightarrow> cinv (startStopButton v b s)"
proof -
  assume c: "cinv s"
  have 1: "cinv (s\<lparr>isRunning := True, isFinished := False, completedCycles := 0,
                   currentState := STATE_FILLING, stateStartTime := millis s\<rparr>)" if "\<not> isRunning s"
    using c that by (simp add: cinv_def)
  have 2: "cinv (t\<lparr>lastBtnStart := l\<rparr>) = cinv t" for t l
    by (simp add: cinv_def)
  show ?thesis
    using c 1 by (simp add: startStopButton_def Let_def 2 cinv_stopSystem)
qed

lemma cinv_menuButton: "cinv (menuButton v b s) = cinv s"
proof -
  have 2: "cinv (t\<lparr>lastBtnMenu := l\<rparr>) = cinv t" for t l
    by (simp add: cinv_def)
  have 3: "cinv (t\<lparr>menuPage := l\<rparr>) = cinv t" for t l
    by (simp add: cinv_def)
  show ?thesis by (simp add: menuButton_def Let_def 2 3)
qed

lemma cinv_adjustSetting: "\<not> isRunning s \<Longrightarrow> cinv s \<Longrightarrow> cinv (adjustSetting v d s)"
  using i16_range [of "setMaxCycles s + d"]
  by (cases v) (simp_all add: cinv_def Let_def)

lemma isRunning_adjustSetting [simp]: "isRunning (adjustSetting v d s) = isRunning s"
  by (cases v) (simp_all add: Let_def)

lemma cinv_scrollButton: "\<not> isRunning s \<Longrightarrow> cinv s \<Longrightarrow> cinv (scrollButton v d r p s)"
proof -
  assume a: "\<not> isRunning s" "cinv s"
  have f: "cinv (fire v d k s)" for k
    using cinv_adjustSetting [OF a, of v d] by (simp add: fire_def cinv_def)
  have 2: "cinv (t\<lparr>btnPressStartTime := l\<rparr>) = cinv t" for t l
    by (simp add: cinv_def)
  have 3: "cinv (t\<lparr>lastRepeatTime := l\<rparr>) = cinv t" for t l
    by (simp add: cinv_def)
  show ?thesis using a f by (simp add: scrollButton_def Let_def 2 3)
qed

lemma isRunning_scrollButton [simp]: "isRunning (scrollButton v d r p s) = isRunning s"
  by (simp add: scrollButton_def Let_def fire_def delay_def)

lemma isRunning_menuButton [simp]: "isRunning (menuButton v b s) = isRunning s"
  by (simp add: menuButton_def Let_def delay_def)

lemma isRunning_upButton [simp]: "isRunning (upButton v b s) = isRunning s"
  by (simp add: upButton_def)

lemma isRunning_downButton [simp]: "isRunning (downButton v b s) = isRunning s"
  by (simp add: downButton_def)

lemma cinv_upButton: "\<not> isRunning s \<Longrightarrow> cinv s \<Longrightarrow> cinv (upButton v b s)"
  using cinv_scrollButton [of s v 1 "rUp b" "lastBtnUp s"]
  by (simp add: upButton_def cinv_def)

lemma cinv_downButton: "\<not> isRunning s \<Longrightarrow> cinv s \<Longrightarrow> cinv (downButton v b s)"
  using cinv_scrollButton [of s v "- 1" "rDown b" "lastBtnDown s"]
  by (simp add: downButton_def cinv_def)

lemma cinv_handleButtons: "cinv s \<Longrightarrow> cinv (handleButtons v b s)"
  by (simp add: handleButtons_def Let_def cinv_startStopButton cinv_menuButton
      cinv_upButton cinv_downButton)


lemma cinv_currentDistance [simp]: "cinv (s\<lparr>currentDistance := d\<rparr>) = cinv s"
  by (simp add: cinv_def)

lemma cinv_cycleSwitch: "cinv s \<Longrightarrow> isRunning s \<Longrightarrow> cinv (cycleSwitch v (currentState s) te du s)"
proof -
  assume a: "cinv s" "isRunning s"
  have r: "i16 (completedCycles s + 1) = completedCycles s + 1"
    using a by (intro i16_id) (simp_all add: cinv_def)
  show ?thesis
  proof (cases v)
    case EnhancedUI
    show ?thesis
    proof (cases "currentState s")
      case STATE_FILLING
      then show ?thesis using a EnhancedUI by (simp add: Let_def) (simp add: cinv_def)
    next
      case STATE_HOLD_HIGH
      then show ?thesis using a EnhancedUI by (simp add: Let_def) (simp add: cinv_def)
    next
      case STATE_DRAINING
      then show ?thesis using a EnhancedUI by (simp add: Let_def) (simp add: cinv_def)
    next
      case STATE_HOLD_LOW
      then show ?thesis using a EnhancedUI r
        by (simp add: Let_def stopSystem_def beep_eq) (simp add: cinv_def)
    qed
  next
    case FastScroll
    show ?thesis
    proof (cases "currentState s")
      case STATE_FILLING
      then show ?thesis using a FastScroll by (simp add: Let_def) (simp add: cinv_def)
    next
      case STATE_HOLD_HIGH
      then show ?thesis using a FastScroll by (simp add: Let_def) (simp add: cinv_def)
    next
      case STATE_DRAINING
      then show ?thesis using a FastScroll by (simp add: Let_def) (simp add: cinv_def)
    next
      case STATE_HOLD_LOW
      then show ?thesis using a FastScroll r
        by (simp add: Let_def stopSystem_def beep_eq) (simp add: cinv_def)
    qed
  qed
qed

lemma cinv_runCycleLogic: "cinv s \<Longrightarrow> isRunning s \<Longrightarrow> cinv (runCycleLogic v sn s)"
proof -
  assume a: "cinv s" "isRunning s"
  let ?s = "(delay (echoMs sn) s)\<lparr>currentDistance := reading sn\<rparr>"
  have 1: "cinv ?s" "isRunning ?s" using a by (simp_all add: delay_def)
  show ?thesis
    using cinv_cycleSwitch [OF 1, of v "millis ?s - stateStartTime ?s" "durationMillis v ?s"]
    by (simp add: runCycleLogic_def getDistance_def Let_def logStatusChange_def)
qed

lemma cinv_loop: "cinv s \<Longrightarrow> cinv (loop v inp s)"
  using cinv_handleButtons [of "delay (idleMs inp) s" v "btn inp"]
  by (simp add: loop_def Let_def cinv_runCycleLogic)

lemma reachable_cinv: "reachable v s \<Longrightarrow> cinv s"
  by (induction rule: reachable.induct)
    (simp_all add: cinv_boot cinv_handleButtons cinv_runCycleLogic)

lemma reachable_loop: "reachable v s \<Longrightarrow> reachable v (loop v i s)"
  by (simp add: loop_def Let_def reachable.wait reachable.buttons reachable.cycle)

lemma reachable_rounds: "reachable v s \<Longrightarrow> reachable v (rounds v inps s)"
  unfolding rounds_def by (induction inps arbitrary: s) (simp_all add: reachable_loop)

lemma reachable_powerOn: "reachable v (powerOn v)"
  unfolding powerOn_def by (rule reachable.boot)


lemma runtimeEq_refl [simp]: "runtimeEq s s"
  by (simp add: runtimeEq_def)

lemma runtimeEq_trans: "runtimeEq u t \<Longrightarrow> runtimeEq t s \<Longrightarrow> runtimeEq u s"
  by (simp add: runtimeEq_def)

lemma runtimeEq_adjustSetting: "runtimeEq (adjustSetting v d s) s"
  by (cases v) (simp_all add: runtimeEq_def Let_def)

lemma runtimeEq_scrollButton: "runtimeEq (scrollButton v d r p s) s"
  using runtimeEq_adjustSetting [of v d s]
  by (simp add: scrollButton_def Let_def fire_def delay_def runtimeEq_def)

lemma runtimeEq_menuButton: "runtimeEq (menuButton v b s) s"
  by (simp add: menuButton_def Let_def delay_def runtimeEq_def)

lemma runtimeEq_upButton: "runtimeEq (upButton v b s) s"
  using runtimeEq_scrollButton [of v 1 "rUp b" "lastBtnUp s" s]
  by (simp add: upButton_def runtimeEq_def)

lemma runtimeEq_downButton: "runtimeEq (downButton v b s) s"
  using runtimeEq_scrollButton [of v "- 1" "rDown b" "lastBtnDown s" s]
  by (simp add: downButton_def runtimeEq_def)

lemma runtimeEq_settingsPart:
  "runtimeEq (downButton v b (upButton v b (menuButton v b s))) s"
  by (blast intro: runtimeEq_trans runtimeEq_downButton runtimeEq_upButton runtimeEq_menuButton)

lemma handleButtons_stop:
  assumes "isRunning s" "rStart b = LOW" "lastBtnStart s = HIGH"
  shows "runtimeEq (handleButtons v b s)
           ((delay 200 (stopSystem (stopReason v) s))\<lparr>lastBtnStart := LOW\<rparr>)"
proof -
  have "startStopButton v b s = (delay 200 (stopSystem (stopReason v) s))\<lparr>lastBtnStart := LOW\<rparr>"
    using assms by (simp add: startStopButton_def)
  moreover have "\<not> isRunning ((delay 200 (stopSystem (stopReason v) s))\<lparr>lastBtnStart := LOW\<rparr>)"
    by (simp add: delay_def stopSystem_def beep_eq)
  ultimately show ?thesis
    by (simp add: handleButtons_def Let_def runtimeEq_settingsPart)
qed

text \<open>
  C4. For every state with \<open>isRunning\<close> true, whatever the phase, a press-edge of the
  start/stop button makes \<^verbatim>\<open>handleButtons\<close> clear \<open>isRunning\<close> and write both relay pins
  \<open>HIGH\<close> (off): the two writes are the newest entries of the relay trace, and both pins
  are \<open>HIGH\<close> when \<^verbatim>\<open>handleButtons\<close> returns.
\<close>

theorem stop_command:
  assumes "isRunning s" "rStart b = LOW" "lastBtnStart s = HIGH"
  shows "\<not> isRunning (handleButtons v b s) \<and>
         relayFillPin (handleButtons v b s) = HIGH \<and>
         relayDrainPin (handleButtons v b s) = HIGH \<and>
         relayTrace (handleButtons v b s) = (HIGH, HIGH) # (HIGH, relayDrainPin s) # relayTrace s"
  using handleButtons_stop [OF assms, of v]
  by (simp add: runtimeEq_def delay_def stopSystem_def beep_eq)


lemma handleButtons_start:
  assumes "\<not> isRunning s" "rStart b = LOW" "lastBtnStart s = HIGH"
  shows "handleButtons v b s =
           (delay 200 (beep 200 1
              (s\<lparr>isRunning := True, isFinished := False, completedCycles := 0,
                  currentState := STATE_FILLING, stateStartTime := millis s\<rparr>)))\<lparr>lastBtnStart := LOW\<rparr>"
  using assms by (simp add: handleButtons_def startStopButton_def Let_def delay_def beep_eq)

lemma handleButtons_idle:
  assumes "\<not> isRunning s" "\<not> (rStart b = LOW \<and> lastBtnStart s = HIGH)"
  shows "handleButtons v b s =
           downButton v b (upButton v b (menuButton v b (s\<lparr>lastBtnStart := rStart b\<rparr>)))"
proof -
  have "(if rStart b = LOW \<and> lastBtnStart s = HIGH then x else s) = s" for x
    using assms(2) by (rule if_not_P)
  then have "startStopButton v b s = s\<lparr>lastBtnStart := rStart b\<rparr>"
    by (simp only: startStopButton_def Let_def)
  then show ?thesis using assms(1) by (simp add: handleButtons_def)
qed

lemma loop_idle:
  assumes "\<not> isRunning s" "\<not> (rStart (btn i) = LOW \<and> lastBtnStart s = HIGH)"
  shows "loop v i s =
           downButton v (btn i) (upButton v (btn i) (menuButton v (btn i)
             ((delay (idleMs i) s)\<lparr>lastBtnStart := rStart (btn i)\<rparr>)))"
proof -
  have "handleButtons v (btn i) (delay (idleMs i) s) =
      downButton v (btn i) (upButton v (btn i) (menuButton v (btn i)
             ((delay (idleMs i) s)\<lparr>lastBtnStart := rStart (btn i)\<rparr>)))"
    using assms by (intro handleButtons_idle) (simp_all add: delay_def)
  moreover have "\<not> isRunning ((delay (idleMs i) s)\<lparr>lastBtnStart := rStart (btn i)\<rparr>)"
    using assms by (simp add: delay_def)
  ultimately show ?thesis by (simp add: loop_def Let_def)
qed

lemma loop_idle_frame:
  assumes "\<not> isRunning s" "\<not> (rStart (btn i) = LOW \<and> lastBtnStart s = HIGH)"
  shows "runtimeEq (loop v i s) (s\<lparr>lastBtnStart := rStart (btn i)\<rparr>)"
proof -
  have "runtimeEq (loop v i s) ((delay (idleMs i) s)\<lparr>lastBtnStart := rStart (btn i)\<rparr>)"
    unfolding loop_idle [OF assms] by (rule runtimeEq_settingsPart)
  then show ?thesis by (simp add: runtimeEq_def delay_def)
qed

lemma rounds_idle_frame:
  "\<not> isRunning s \<Longrightarrow> noStartEdge (lastBtnStart s) inps \<Longrightarrow>
   \<not> isRunning (rounds v inps s) \<and> isFinished (rounds v inps s) = isFinished s \<and>
   completedCycles (rounds v inps s) = completedCycles s \<and>
   currentState (rounds v inps s) = currentState s \<and>
   relayFillPin (rounds v inps s) = relayFillPin s \<and>
   relayDrainPin (rounds v inps s) = relayDrainPin s"
proof (induction inps arbitrary: s)
  case Nil
  then show ?case by (simp add: rounds_def)
next
  case (Cons i inps)
  from Cons.prems have e: "\<not> (rStart (btn i) = LOW \<and> lastBtnStart s = HIGH)"
    and n: "noStartEdge (rStart (btn i)) inps" by simp_all
  have f: "runtimeEq (loop v i s) (s\<lparr>lastBtnStart := rStart (btn i)\<rparr>)"
    using Cons.prems(1) e by (rule loop_idle_frame)
  then have "\<not> isRunning (loop v i s)" "noStartEdge (lastBtnStart (loop v i s)) inps"
    using Cons.prems(1) n by (simp_all add: runtimeEq_def)
  from Cons.IH [OF this] f show ?case
    by (simp add: rounds_def runtimeEq_def)
qed

text \<open>
  C6, amended: on every start command (a press-edge of the start/stop button while
  not running, in a reachable state) \<^verbatim>\<open>handleButtons\<close> returns with \<open>isRunning\<close> set, the
  phase Filling, \<open>stateStartTime\<close> the time of the call, \<open>completedCycles = 0\<close> and
  \<open>isFinished\<close> clear. The start command itself commands no actuator: the relay trace
  is unchanged. Both relays are off all the same, because the last relay command before
  the start (of \<^verbatim>\<open>setup\<close> or \<^verbatim>\<open>stopSystem\<close>) left both pins \<open>HIGH\<close>, and the first relay
  command of the cycle logic that follows is Filling on with the drain relay off.
\<close>

theorem start_command:
  assumes "reachable v s" "\<not> isRunning s" "rStart b = LOW" "lastBtnStart s = HIGH"
  shows "isRunning (handleButtons v b s) \<and>
         currentState (handleButtons v b s) = STATE_FILLING \<and>
         stateStartTime (handleButtons v b s) = millis s \<and>
         completedCycles (handleButtons v b s) = 0 \<and>
         \<not> isFinished (handleButtons v b s) \<and>
         relayFillPin (handleButtons v b s) = HIGH \<and>
         relayDrainPin (handleButtons v b s) = HIGH \<and>
         relayTrace (handleButtons v b s) = relayTrace s \<and>
         relayTrace s \<noteq> [] \<and> hd (relayTrace s) = (HIGH, HIGH) \<and>
         (\<exists>rest. relayTrace (runCycleLogic v sn (handleButtons v b s))
                   = rest @ (LOW, HIGH) # relayTrace s)"
proof -
  have c: "cinv s" using assms(1) by (rule reachable_cinv)
  have p: "relayFillPin s = HIGH" "relayDrainPin s = HIGH" "relayTrace s \<noteq> []"
      "hd (relayTrace s) = (HIGH, HIGH)"
    using c assms(2) by (simp_all add: cinv_def)
  note h = handleButtons_start [OF assms(2-4), of v]
  have "\<exists>rest. relayTrace (runCycleLogic v sn (handleButtons v b s))
                   = rest @ (LOW, HIGH) # relayTrace s"
    unfolding h using p
    by (cases v)
      (simp_all add: runCycleLogic_def getDistance_def Let_def delay_def beep_eq
        logStatusChange_def)
  then show ?thesis
    unfolding h using p by (simp add: delay_def beep_eq)
qed




lemma durationMillis_frame [simp]:
  "durationMillis v (s\<lparr>clock := c\<rparr>) = durationMillis v s"
  "durationMillis v (s\<lparr>currentDistance := d\<rparr>) = durationMillis v s"
  by (cases v; simp)+

lemma runCycleLogic_unfold:
  "runCycleLogic v sn s0 =
     (let s = (delay (echoMs sn) s0)\<lparr>currentDistance := reading sn\<rparr>;
          s1 = cycleSwitch v (currentState s0)
                 (millis (delay (echoMs sn) s0) - stateStartTime s0) (durationMillis v s0) s;
          s2 = (if currentState s1 \<noteq> currentState s0 \<and> isRunning s1 then beep 100 2 s1 else s1)
      in if isRunning s2 then delay 200 s2 else s2)"
  by (simp add: runCycleLogic_def getDistance_def Let_def logStatusChange_def millis_def delay_def)

lemma cycleSwitch_holdLow:
  assumes "du \<le> te" "i16 (completedCycles s + 1) = completedCycles s + 1"
  shows "cycleSwitch v STATE_HOLD_LOW te du s =
     (let s1 = digitalWrite RelayDrain HIGH (digitalWrite RelayFill HIGH s);
          s2 = s1\<lparr>completedCycles := completedCycles s + 1\<rparr>
      in if setMaxCycles s \<le> completedCycles s + 1
         then beep 500 3 ((stopSystem (if v = EnhancedUI then ''DONE'' else ''ALL CYCLES DONE'') s2)\<lparr>isFinished := True\<rparr>)
         else s2\<lparr>currentState := STATE_FILLING, stateStartTime := millis s\<rparr>)"
  using assms by (cases v) (simp_all add: Let_def millis_def)


lemma holdLow_step:
  assumes "cinv s" "isRunning s" "currentState s = STATE_HOLD_LOW"
    and "durationMillis v s \<le> millis (delay (echoMs sn) s) - stateStartTime s"
  shows "completedCycles (runCycleLogic v sn s) = completedCycles s + 1 \<and>
         lastBtnStart (runCycleLogic v sn s) = lastBtnStart s \<and>
         (if setMaxCycles s \<le> completedCycles s + 1
          then \<not> isRunning (runCycleLogic v sn s) \<and> isFinished (runCycleLogic v sn s) \<and>
               currentState (runCycleLogic v sn s) = STATE_HOLD_LOW \<and>
               relayFillPin (runCycleLogic v sn s) = HIGH \<and>
               relayDrainPin (runCycleLogic v sn s) = HIGH
          else isRunning (runCycleLogic v sn s) \<and> \<not> isFinished (runCycleLogic v sn s) \<and>
               currentState (runCycleLogic v sn s) = STATE_FILLING \<and>
               stateStartTime (runCycleLogic v sn s) = millis (delay (echoMs sn) s))"
proof -
  let ?s = "(delay (echoMs sn) s)\<lparr>currentDistance := reading sn\<rparr>"
  have r: "i16 (completedCycles ?s + 1) = completedCycles ?s + 1"
    using assms(1,2) by (intro i16_id) (simp_all add: cinv_def delay_def)
  have f: "\<not> isFinished s" using assms(1,2) by (simp add: cinv_def)
  note sw = cycleSwitch_holdLow [OF assms(4) r, of v]
  show ?thesis
    unfolding runCycleLogic_unfold Let_def assms(3) sw
    using assms(2,3) f
    by (simp add: delay_def millis_def beep_eq stopSystem_def)
qed


text \<open>
  C3. In a reachable running state in the HoldLow phase whose hold time has elapsed,
  \<^verbatim>\<open>runCycleLogic\<close> raises \<open>completedCycles\<close> by exactly one. If the count has then reached
  \<open>setMaxCycles\<close>, the system is stopped with \<open>isFinished\<close> set and both relays off, and
  through every later sequence of rounds without a press-edge of the start/stop button
  it stays stopped and finished with the same count and phase. Otherwise the machine is
  in the Filling phase, still running, with \<open>stateStartTime\<close> the time of the transition.
\<close>

theorem holdLow_expiry:
  assumes "reachable v s" "isRunning s" "currentState s = STATE_HOLD_LOW"
    and "durationMillis v s \<le> millis (delay (echoMs sn) s) - stateStartTime s"
  shows "completedCycles (runCycleLogic v sn s) = completedCycles s + 1 \<and>
         (if setMaxCycles s \<le> completedCycles s + 1
          then \<not> isRunning (runCycleLogic v sn s) \<and> isFinished (runCycleLogic v sn s) \<and>
               relayFillPin (runCycleLogic v sn s) = HIGH \<and>
               relayDrainPin (runCycleLogic v sn s) = HIGH \<and>
               (\<forall>inps. noStartEdge (lastBtnStart s) inps \<longrightarrow>
                  \<not> isRunning (rounds v inps (runCycleLogic v sn s)) \<and>
                  isFinished (rounds v inps (runCycleLogic v sn s)) \<and>
                  completedCycles (rounds v inps (runCycleLogic v sn s)) = completedCycles s + 1 \<and>
                  currentState (rounds v inps (runCycleLogic v sn s)) = STATE_HOLD_LOW)
          else isRunning (runCycleLogic v sn s) \<and> \<not> isFinished (runCycleLogic v sn s) \<and>
               currentState (runCycleLogic v sn s) = STATE_FILLING \<and>
               stateStartTime (runCycleLogic v sn s) = millis (delay (echoMs sn) s))"
proof -
  have c: "cinv s" using assms(1) by (rule reachable_cinv)
  note h = holdLow_step [OF c assms(2-4)]
  show ?thesis
  proof (cases "setMaxCycles s \<le> completedCycles s + 1")
    case True
    with h have n: "\<not> isRunning (runCycleLogic v sn s)"
      and l: "lastBtnStart (runCycleLogic v sn s) = lastBtnStart s" by simp_all
    have "\<not> isRunning (rounds v inps (runCycleLogic v sn s)) \<and>
          isFinished (rounds v inps (runCycleLogic v sn s)) \<and>
          completedCycles (rounds v inps (runCycleLogic v sn s)) = completedCycles s + 1 \<and>
          currentState (rounds v inps (runCycleLogic v sn s)) = STATE_HOLD_LOW"
      if "noStartEdge (lastBtnStart s) inps" for inps
      using rounds_idle_frame [OF n, of inps v] that l h True by simp
    then show ?thesis using h True by simp
  next
    case False
    then show ?thesis using h by simp
  qed
qed


text \<open>
  C10. In every reachable state the two relays are never both energised: no
  \<^verbatim>\<open>digitalWrite\<close> so far left both relay pins \<open>LOW\<close>, the fill relay is on only while
  running in the Filling phase and the drain relay only while running in the Draining
  phase; \<^verbatim>\<open>setup\<close> and \<^verbatim>\<open>stopSystem\<close> leave both off.
\<close>

theorem relays_never_both_on:
  assumes "reachable v s"
  shows "(\<forall>p \<in> set (relayTrace s). p \<noteq> (LOW, LOW)) \<and>
         (relayFillPin s, relayDrainPin s) \<noteq> (LOW, LOW) \<and>
         (relayFillPin s = LOW \<longrightarrow> isRunning s \<and> currentState s = STATE_FILLING) \<and>
         (relayDrainPin s = LOW \<longrightarrow> isRunning s \<and> currentState s = STATE_DRAINING) \<and>
         relayFillPin (setup_board v (globals f d)) = HIGH \<and>
         relayDrainPin (setup_board v (globals f d)) = HIGH \<and>
         relayFillPin (stopSystem r s) = HIGH \<and> relayDrainPin (stopSystem r s) = HIGH"
proof -
  have c: "cinv s" using assms by (rule reachable_cinv)
  have 1: "\<forall>p \<in> set (relayTrace s). p \<noteq> (LOW, LOW)" using c by (simp add: cinv_def)
  have 2: "relayFillPin s = LOW \<longrightarrow> isRunning s \<and> currentState s = STATE_FILLING"
    using c by (auto simp: cinv_def)
  have 3: "relayDrainPin s = LOW \<longrightarrow> isRunning s \<and> currentState s = STATE_DRAINING"
    using c by (auto simp: cinv_def)
  have 4: "(relayFillPin s, relayDrainPin s) \<noteq> (LOW, LOW)"
    using 2 3 by auto
  have 5: "relayFillPin (setup_board v (globals f d)) = HIGH \<and>
         relayDrainPin (setup_board v (globals f d)) = HIGH \<and>
         relayFillPin (stopSystem r s) = HIGH \<and> relayDrainPin (stopSystem r s) = HIGH"
    by (simp add: setup_board_def stopSystem_def delay_def beep_eq)
  show ?thesis using 1 2 3 4 5 by blast
qed

lemmas eval_defs = script_def poll_def released_def powerOn_def rounds_def loop_def
  handleButtons_def startStopButton_def menuButton_def upButton_def downButton_def
  scrollButton_def fire_def runCycleLogic_def getDistance_def logStatusChange_def
  stopSystem_def setup_board_def globals_def beep_eq delay_def millis_def Let_def i16_def
  shown_def displayMenu_def

subsection \<open>The cycle state machine\<close>

lemma fastScroll_switch_resets_timer:
  "currentState (cycleSwitch FastScroll (currentState s) te du s) \<noteq> currentState s \<Longrightarrow>
   stateStartTime (cycleSwitch FastScroll (currentState s) te du s) = millis s"
  by (cases "currentState s")
    (simp_all add: Let_def millis_def stopSystem_def beep_eq split: if_splits)

lemma fastScroll_transition_resets_timer:
  "currentState (runCycleLogic FastScroll sn s) \<noteq> currentState s \<Longrightarrow>
   stateStartTime (runCycleLogic FastScroll sn s) = millis (delay (echoMs sn) s)"
proof -
  let ?s = "(delay (echoMs sn) s)\<lparr>currentDistance := reading sn\<rparr>"
  let ?c = "cycleSwitch FastScroll (currentState ?s)
              (millis (delay (echoMs sn) s) - stateStartTime s) (durationMillis FastScroll s) ?s"
  assume "currentState (runCycleLogic FastScroll sn s) \<noteq> currentState s"
  then have "currentState ?c \<noteq> currentState ?s"
    unfolding runCycleLogic_unfold Let_def
    by (simp add: delay_def beep_eq split: if_splits)
  then have "stateStartTime ?c = millis ?s"
    by (rule fastScroll_switch_resets_timer)
  then show ?thesis
    unfolding runCycleLogic_unfold Let_def
    by (simp add: delay_def beep_eq millis_def)
qed

text \<open>
  C2. Claim: every phase transition sets \<open>stateStartTime\<close> to the time of the
  transition, the Filling to HoldHigh transition in particular. The Fast Scroll sketch
  does so (\<open>fastScroll_transition_resets_timer\<close>), and so do the HoldHigh and HoldLow
  cases of the Enhanced UI sketch; its Filling and Draining cases do not. The theorem
  runs the Enhanced UI sketch through the scripted run with a hold time of 1 minute:
  Start is pressed at 1750 ms, the level is reached at 63354 ms, the machine enters
  HoldHigh with \<open>stateStartTime\<close> still 1750, and the next round, 10 ms later, finds the
  hold time elapsed and goes on to Draining. The same script in the Fast Scroll sketch
  enters HoldHigh with \<open>stateStartTime\<close> set to the time of the transition.
\<close>

theorem fill_to_hold_keeps_old_timer:
  "currentState (rounds EnhancedUI (take 3 (script 0)) (powerOn EnhancedUI)) = STATE_FILLING \<and>
   stateStartTime (rounds EnhancedUI (take 3 (script 0)) (powerOn EnhancedUI)) = 1750 \<and>
   isRunning (rounds EnhancedUI (take 3 (script 0)) (powerOn EnhancedUI)) \<and>
   millis (delay 2 (delay 61000 (rounds EnhancedUI (take 3 (script 0)) (powerOn EnhancedUI))))
     = 63354 \<and>
   currentState (rounds EnhancedUI (take 4 (script 0)) (powerOn EnhancedUI)) = STATE_HOLD_HIGH \<and>
   stateStartTime (rounds EnhancedUI (take 4 (script 0)) (powerOn EnhancedUI)) = 1750 \<and>
   durationMillis EnhancedUI (rounds EnhancedUI (take 4 (script 0)) (powerOn EnhancedUI))
     = 60000 \<and>
   clock (rounds EnhancedUI (take 4 (script 0)) (powerOn EnhancedUI)) = 63854 \<and>
   currentState (rounds EnhancedUI (take 5 (script 0)) (powerOn EnhancedUI)) = STATE_DRAINING \<and>
   stateStartTime (rounds FastScroll (take 4 (script 0)) (powerOn FastScroll)) = 62854 \<and>
   millis (delay 2 (delay 61000 (rounds FastScroll (take 3 (script 0)) (powerOn FastScroll))))
     = 62854"
  by (simp add: eval_defs)


subsection \<open>The theorems at the scripted run\<close>

theorem stop_command_witness:
  "\<not> isRunning (handleButtons EnhancedUI (released\<lparr>rStart := LOW\<rparr>)
        (rounds EnhancedUI (take 4 (script 0)) (powerOn EnhancedUI))) \<and>
   relayFillPin (handleButtons EnhancedUI (released\<lparr>rStart := LOW\<rparr>)
        (rounds EnhancedUI (take 4 (script 0)) (powerOn EnhancedUI))) = HIGH \<and>
   relayDrainPin (handleButtons EnhancedUI (released\<lparr>rStart := LOW\<rparr>)
        (rounds EnhancedUI (take 4 (script 0)) (powerOn EnhancedUI))) = HIGH"
proof -
  let ?s = "rounds EnhancedUI (take 4 (script 0)) (powerOn EnhancedUI)"
  have 1: "isRunning ?s" by (simp add: eval_defs)
  have 2: "rStart (released\<lparr>rStart := LOW\<rparr>) = LOW" by simp
  have 3: "lastBtnStart ?s = HIGH" by (simp add: eval_defs)
  show ?thesis using stop_command [OF 1 2 3, of EnhancedUI] by simp
qed

theorem start_command_witness:
  "currentState (rounds EnhancedUI (script 60000) (powerOn EnhancedUI)) = STATE_HOLD_LOW \<and>
   completedCycles (rounds EnhancedUI (script 60000) (powerOn EnhancedUI)) = 1 \<and>
   isFinished (rounds EnhancedUI (script 60000) (powerOn EnhancedUI)) \<and>
   stateStartTime (rounds EnhancedUI (script 60000) (powerOn EnhancedUI)) = 63866 \<and>
   isRunning (handleButtons EnhancedUI (released\<lparr>rStart := LOW\<rparr>)
      (rounds EnhancedUI (script 60000) (powerOn EnhancedUI))) \<and>
   currentState (handleButtons EnhancedUI (released\<lparr>rStart := LOW\<rparr>)
      (rounds EnhancedUI (script 60000) (powerOn EnhancedUI))) = STATE_FILLING \<and>
   stateStartTime (handleButtons EnhancedUI (released\<lparr>rStart := LOW\<rparr>)
      (rounds EnhancedUI (script 60000) (powerOn EnhancedUI))) = 132070 \<and>
   completedCycles (handleButtons EnhancedUI (released\<lparr>rStart := LOW\<rparr>)
      (rounds EnhancedUI (script 60000) (powerOn EnhancedUI))) = 0 \<and>
   \<not> isFinished (handleButtons EnhancedUI (released\<lparr>rStart := LOW\<rparr>)
      (rounds EnhancedUI (script 60000) (powerOn EnhancedUI))) \<and>
   relayFillPin (handleButtons EnhancedUI (released\<lparr>rStart := LOW\<rparr>)
      (rounds EnhancedUI (script 60000) (powerOn EnhancedUI))) = HIGH \<and>
   relayDrainPin (handleButtons EnhancedUI (released\<lparr>rStart := LOW\<rparr>)
      (rounds EnhancedUI (script 60000) (powerOn EnhancedUI))) = HIGH"
proof -
  let ?s = "rounds EnhancedUI (script 60000) (powerOn EnhancedUI)"
  have 1: "reachable EnhancedUI ?s"
    by (intro reachable_rounds reachable_powerOn)
  have 2: "\<not> isRunning ?s" by (simp add: eval_defs)
  have 3: "rStart (released\<lparr>rStart := LOW\<rparr>) = LOW" by simp
  have 4: "lastBtnStart ?s = HIGH" by (simp add: eval_defs)
  have 5: "millis ?s = 132070" by (simp add: eval_defs)
  have 6: "currentState ?s = STATE_HOLD_LOW" "completedCycles ?s = 1" "isFinished ?s"
    "stateStartTime ?s = 63866"
    by (simp_all add: eval_defs)
  show ?thesis using start_command [OF 1 2 3 4] 5 6 by simp
qed

text \<open>
  C6, as the claim states it, fails in its last part: the start command commands no
  actuator. From the finished state of the scripted run the start branch of
  \<^verbatim>\<open>handleButtons\<close> leaves the relay trace as it was, and the only relay commands of the
  whole round are those of the Filling case: fill on, drain off. The same holds for a
  start right after power-on in the Fast Scroll sketch.
\<close>

theorem start_issues_no_relay_command:
  "\<not> isRunning (rounds EnhancedUI (script 60000) (powerOn EnhancedUI)) \<and>
   lastBtnStart (rounds EnhancedUI (script 60000) (powerOn EnhancedUI)) = HIGH \<and>
   relayTrace (handleButtons EnhancedUI (released\<lparr>rStart := LOW\<rparr>)
      (rounds EnhancedUI (script 60000) (powerOn EnhancedUI)))
     = relayTrace (rounds EnhancedUI (script 60000) (powerOn EnhancedUI)) \<and>
   relayTrace (loop EnhancedUI (poll (released\<lparr>rStart := LOW\<rparr>) 60 10)
      (rounds EnhancedUI (script 60000) (powerOn EnhancedUI)))
     = (LOW, HIGH) # (LOW, HIGH) #
       relayTrace (rounds EnhancedUI (script 60000) (powerOn EnhancedUI)) \<and>
   relayTrace (handleButtons FastScroll (released\<lparr>rStart := LOW\<rparr>) (powerOn FastScroll))
     = relayTrace (powerOn FastScroll) \<and>
   relayTrace (loop FastScroll (poll (released\<lparr>rStart := LOW\<rparr>) 40 10) (powerOn FastScroll))
     = (LOW, HIGH) # (LOW, HIGH) # relayTrace (powerOn FastScroll)"
  by (simp add: eval_defs)

theorem holdLow_expiry_witness:
  "completedCycles (runCycleLogic EnhancedUI \<lparr>reading = 60, echoMs = 2\<rparr>
      (handleButtons EnhancedUI released
         (delay 60000 (rounds EnhancedUI (take 6 (script 0)) (powerOn EnhancedUI))))) = 1 \<and>
   isFinished (runCycleLogic EnhancedUI \<lparr>reading = 60, echoMs = 2\<rparr>
      (handleButtons EnhancedUI released
         (delay 60000 (rounds EnhancedUI (take 6 (script 0)) (powerOn EnhancedUI)))))"
proof -
  let ?s = "handleButtons EnhancedUI released
         (delay 60000 (rounds EnhancedUI (take 6 (script 0)) (powerOn EnhancedUI)))"
  let ?sn = "\<lparr>reading = 60, echoMs = 2\<rparr>"
  have 1: "reachable EnhancedUI ?s"
    by (intro reachable.buttons reachable.wait reachable_rounds reachable_powerOn)
  have 2: "isRunning ?s" by (simp add: eval_defs)
  have 3: "currentState ?s = STATE_HOLD_LOW" by (simp add: eval_defs)
  have 4: "durationMillis EnhancedUI ?s \<le> millis (delay (echoMs ?sn) ?s) - stateStartTime ?s"
    by (simp add: eval_defs)
  have 5: "setMaxCycles ?s = 1" "completedCycles ?s = 0" by (simp_all add: eval_defs)
  show ?thesis using holdLow_expiry [OF 1 2 3 4] 5 by simp
qed

theorem relays_never_both_on_witness:
  "(LOW, LOW) \<notin> set (relayTrace (rounds EnhancedUI (take 3 (script 0)) (powerOn EnhancedUI))) \<and>
   relayFillPin (rounds EnhancedUI (take 3 (script 0)) (powerOn EnhancedUI)) = LOW \<and>
   relayDrainPin (rounds EnhancedUI (take 3 (script 0)) (powerOn EnhancedUI)) = HIGH \<and>
   currentState (rounds EnhancedUI (take 3 (script 0)) (powerOn EnhancedUI)) = STATE_FILLING"
proof -
  let ?s = "rounds EnhancedUI (take 3 (script 0)) (powerOn EnhancedUI)"
  have 1: "reachable EnhancedUI ?s"
    by (intro reachable_rounds reachable_powerOn)
  have 2: "relayFillPin ?s = LOW" "relayDrainPin ?s = HIGH" by (simp_all add: eval_defs)
  show ?thesis using relays_never_both_on [OF 1] 2 by auto
qed

text \<open>
  C5. Claim: when \<open>isFinished\<close> is true, a press-edge of the start/stop button is a
  reset that clears \<open>isFinished\<close> and returns to the idle menu view, the finished view
  being shown until then. The finished screen of the sketch reads "Press Stop->Reset",
  but the press takes the start branch of \<^verbatim>\<open>handleButtons\<close>. The theorem runs the
  Enhanced UI sketch through the whole scripted run, which ends finished after one
  cycle: the next round shows the finished view with count 1; a round with the
  start/stop button pressed clears \<open>isFinished\<close>, sets \<open>isRunning\<close>, shows no menu view
  and energises the fill relay.
\<close>

theorem start_press_when_finished_starts_run:
  "isFinished (rounds EnhancedUI (script 60000) (powerOn EnhancedUI)) \<and>
   \<not> isRunning (rounds EnhancedUI (script 60000) (powerOn EnhancedUI)) \<and>
   shown EnhancedUI (poll released 60 10) (rounds EnhancedUI (script 60000) (powerOn EnhancedUI))
     = Some (DoneView 1) \<and>
   \<not> isFinished (loop EnhancedUI (poll (released\<lparr>rStart := LOW\<rparr>) 60 10)
        (rounds EnhancedUI (script 60000) (powerOn EnhancedUI))) \<and>
   isRunning (loop EnhancedUI (poll (released\<lparr>rStart := LOW\<rparr>) 60 10)
        (rounds EnhancedUI (script 60000) (powerOn EnhancedUI))) \<and>
   shown EnhancedUI (poll (released\<lparr>rStart := LOW\<rparr>) 60 10)
        (rounds EnhancedUI (script 60000) (powerOn EnhancedUI)) = None \<and>
   currentState (loop EnhancedUI (poll (released\<lparr>rStart := LOW\<rparr>) 60 10)
        (rounds EnhancedUI (script 60000) (powerOn EnhancedUI))) = STATE_FILLING \<and>
   relayFillPin (loop EnhancedUI (poll (released\<lparr>rStart := LOW\<rparr>) 60 10)
        (rounds EnhancedUI (script 60000) (powerOn EnhancedUI))) = LOW"
  by (simp add: eval_defs)

subsection \<open>Fast scroll\<close>

lemma word_gap:
  fixes n :: "32 word"
  assumes "P \<le> c" "n < word_of_nat c - word_of_nat P"
  shows "P + unat n < c"
proof -
  have "(word_of_nat c - word_of_nat P :: 32 word) = word_of_nat (c - P)"
    using assms(1) by (simp add: of_nat_diff)
  then have "unat n < unat (word_of_nat (c - P) :: 32 word)"
    using assms(2) by (simp add: word_less_nat_alt)
  also have "unat (word_of_nat (c - P) :: 32 word) \<le> c - P"
    by (simp add: unat_of_nat)
  finally show ?thesis by simp
qed

lemma adjustSetting_frame:
  "clock (adjustSetting v d s) = clock s"
  "adjustTrace (adjustSetting v d s) = adjustTrace s"
  "btnPressStartTime (adjustSetting v d s) = btnPressStartTime s"
  "lastRepeatTime (adjustSetting v d s) = lastRepeatTime s"
  "lastBtnUp (adjustSetting v d s) = lastBtnUp s"
  "lastBtnDown (adjustSetting v d s) = lastBtnDown s"
  by (cases v; simp add: Let_def)+


lemma level_not_HIGH [simp]: "(l \<noteq> HIGH) = (l = LOW)"
  by (cases l) simp_all

lemma scrollButton_cases:
  "scrollButton v d r prev s =
     (if r = LOW \<and> prev = HIGH then
        (adjustSetting v d s)\<lparr>adjustTrace := (d, Initial, clock s) # adjustTrace s,
           btnPressStartTime := word_of_nat (clock s), lastRepeatTime := word_of_nat (clock s),
           clock := clock s + 20\<rparr>
      else if r = LOW \<and> 500 < word_of_nat (clock s) - btnPressStartTime s \<and>
              100 < word_of_nat (clock s) - lastRepeatTime s then
        (adjustSetting v d s)\<lparr>adjustTrace := (d, Repeat, clock s) # adjustTrace s,
           lastRepeatTime := word_of_nat (clock s)\<rparr>
      else s)"
  by (simp add: scrollButton_def fire_def Let_def millis_def delay_def adjustSetting_frame)

lemma timingInvI:
  assumes "\<forall>e \<in> set old. fireTime e \<le> clock s"
    and "btnPressStartTime s = word_of_nat P" "lastRepeatTime s = word_of_nat R"
    and "P \<le> clock s" "R \<le> clock s"
    and "\<forall>te. m = Some te \<longrightarrow> te \<le> P" "\<forall>te. m' = Some te \<longrightarrow> te \<le> P"
    and "\<forall>e \<in> set old. fireTime e \<le> R"
  shows "timingInv s m m' old"
  unfolding timingInv_def using assms by blast

lemma timingInv_release: "timingInv s m m' old \<Longrightarrow> timingInv s None m' old"
  unfolding timingInv_def by blast

lemma timingInv_sym: "timingInv s m m' old \<Longrightarrow> timingInv s m' m old"
  unfolding timingInv_def by blast

lemma scroll_step:
  assumes T: "timingInv s m m' old" and lv: "prev = LOW \<longleftrightarrow> m \<noteq> None" and tq: "tq \<le> clock s"
  shows "\<exists>new. adjustTrace (scrollButton v d r prev s) = new @ adjustTrace s \<and>
           timingInv (scrollButton v d r prev s) (holdNext r tq m) m' (new @ old) \<and>
           clock s \<le> clock (scrollButton v d r prev s) \<and>
           (\<forall>e \<in> set new. fst e = d) \<and>
           (r = LOW \<and> prev = HIGH \<longrightarrow> (\<exists>t. new = [(d, Initial, t)])) \<and>
           (\<forall>t. (d, Repeat, t) \<in> set new \<longrightarrow>
                new = [(d, Repeat, t)] \<and> r = LOW \<and> (\<exists>te. m = Some te \<and> te + 500 < t) \<and>
                (\<forall>e \<in> set old. fireTime e + 100 < t))"
proof -
  let ?s' = "scrollButton v d r prev s"
  consider (rel) "r = HIGH"
    | (edge) "r = LOW" "prev = HIGH"
    | (rep) "r = LOW" "prev = LOW" "500 < word_of_nat (clock s) - btnPressStartTime s"
        "100 < word_of_nat (clock s) - lastRepeatTime s"
    | (hold) "r = LOW" "prev = LOW" "\<not> (500 < word_of_nat (clock s) - btnPressStartTime s \<and>
        100 < word_of_nat (clock s) - lastRepeatTime s)"
    by (cases r; cases prev; auto)
  then show ?thesis
  proof cases
    case rel
    then have e: "?s' = s" by (simp add: scrollButton_cases)
    have "timingInv s (holdNext r tq m) m' ([] @ old)"
      using T rel by (simp add: holdNext_def timingInv_release)
    then show ?thesis using rel e by simp
  next
    case edge
    then have mN: "m = None" using lv by simp
    have e: "?s' = (adjustSetting v d s)\<lparr>adjustTrace := (d, Initial, clock s) # adjustTrace s,
           btnPressStartTime := word_of_nat (clock s), lastRepeatTime := word_of_nat (clock s),
           clock := clock s + 20\<rparr>"
      using edge by (simp add: scrollButton_cases)
    have o: "\<forall>e \<in> set old. fireTime e \<le> clock s" using T by (simp add: timingInv_def)
    have m': "\<forall>te. m' = Some te \<longrightarrow> te \<le> clock s"
      using T unfolding timingInv_def by fastforce
    have "timingInv ?s' (Some tq) m' ([(d, Initial, clock s)] @ old)"
      unfolding e using o m' tq
      by (intro timingInvI [where P = "clock s" and R = "clock s"])
        (auto simp: fireTime_def adjustSetting_frame)
    then show ?thesis
      using edge mN e by (simp add: holdNext_def adjustSetting_frame)
  next
    case rep
    then obtain te where mS: "m = Some te" using lv by auto
    have e: "?s' = (adjustSetting v d s)\<lparr>adjustTrace := (d, Repeat, clock s) # adjustTrace s,
           lastRepeatTime := word_of_nat (clock s)\<rparr>"
      using rep by (simp add: scrollButton_cases)
    from T mS obtain P R where PR: "btnPressStartTime s = word_of_nat P"
        "lastRepeatTime s = word_of_nat R" "P \<le> clock s" "R \<le> clock s" "te \<le> P"
        "\<forall>te. m' = Some te \<longrightarrow> te \<le> P" "\<forall>e \<in> set old. fireTime e \<le> R"
      unfolding timingInv_def by auto
    have g1: "P + 500 < clock s"
      using word_gap [OF PR(3), of 500] rep(3) PR(1) by simp
    have g2: "R + 100 < clock s"
      using word_gap [OF PR(4), of 100] rep(4) PR(2) by simp
    have o: "\<forall>e \<in> set old. fireTime e \<le> clock s" using T by (simp add: timingInv_def)
    have "timingInv ?s' (Some te) m' ([(d, Repeat, clock s)] @ old)"
      unfolding e using o PR
      by (intro timingInvI [where P = P and R = "clock s"])
        (auto simp: fireTime_def adjustSetting_frame)
    moreover have "te + 500 < clock s" using g1 PR(5) by simp
    moreover have "\<forall>e \<in> set old. fireTime e + 100 < clock s"
      using g2 PR(7) by fastforce
    ultimately show ?thesis
      using rep mS e by (simp add: holdNext_def adjustSetting_frame)
  next
    case hold
    then obtain te where mS: "m = Some te" using lv by auto
    have e: "?s' = s" using hold by (auto simp: scrollButton_cases)
    have "timingInv s (holdNext r tq m) m' ([] @ old)"
      using T hold mS by (simp add: holdNext_def)
    then show ?thesis using hold e by simp
  qed
qed


lemma timingInv_frame:
  assumes "timingInv s m m' old" "clock s \<le> clock s'"
    "btnPressStartTime s' = btnPressStartTime s" "lastRepeatTime s' = lastRepeatTime s"
  shows "timingInv s' m m' old"
proof -
  have 1: "\<forall>e \<in> set old. fireTime e \<le> clock s'"
    using assms(1,2) unfolding timingInv_def by fastforce
  show ?thesis
  proof (cases "m \<noteq> None \<or> m' \<noteq> None")
    case True
    with assms(1) obtain P R where PR: "btnPressStartTime s = word_of_nat P"
        "lastRepeatTime s = word_of_nat R" "P \<le> clock s" "R \<le> clock s"
        "\<forall>te. m = Some te \<longrightarrow> te \<le> P" "\<forall>te. m' = Some te \<longrightarrow> te \<le> P"
        "\<forall>e \<in> set old. fireTime e \<le> R"
      unfolding timingInv_def by blast
    show ?thesis
      using 1 PR assms(2-4) by (intro timingInvI [where P = P and R = R]) simp_all
  next
    case False
    then show ?thesis using 1 by (simp add: timingInv_def)
  qed
qed

lemma scrollButton_frame:
  "lastBtnUp (scrollButton v d r prev s) = lastBtnUp s"
  "lastBtnDown (scrollButton v d r prev s) = lastBtnDown s"
  by (simp_all add: scrollButton_cases adjustSetting_frame)

lemma menuButton_frame:
  "clock s \<le> clock (menuButton v b s)"
  "btnPressStartTime (menuButton v b s) = btnPressStartTime s"
  "lastRepeatTime (menuButton v b s) = lastRepeatTime s"
  "adjustTrace (menuButton v b s) = adjustTrace s"
  "lastBtnUp (menuButton v b s) = lastBtnUp s"
  "lastBtnDown (menuButton v b s) = lastBtnDown s"
  by (simp_all add: menuButton_def Let_def delay_def)

text \<open>One press of a scroll button part: the Up part or the Down part of handleButtons.\<close>

lemma upButton_step:
  assumes T: "timingInv s mu md old" and lv: "lastBtnUp s = LOW \<longleftrightarrow> mu \<noteq> None"
    and tq: "tq \<le> clock s"
  shows "\<exists>new. adjustTrace (upButton v b s) = new @ adjustTrace s \<and>
           timingInv (upButton v b s) (holdNext (rUp b) tq mu) md (new @ old) \<and>
           clock s \<le> clock (upButton v b s) \<and>
           (lastBtnUp (upButton v b s) = LOW \<longleftrightarrow> holdNext (rUp b) tq mu \<noteq> None) \<and>
           lastBtnDown (upButton v b s) = lastBtnDown s \<and>
           (\<forall>e \<in> set new. fst e = 1) \<and>
           (rUp b = LOW \<and> lastBtnUp s = HIGH \<longrightarrow> (\<exists>t. new = [(1, Initial, t)])) \<and>
           (\<forall>t. (1, Repeat, t) \<in> set new \<longrightarrow>
                new = [(1, Repeat, t)] \<and> rUp b = LOW \<and> (\<exists>te. mu = Some te \<and> te + 500 < t) \<and>
                (\<forall>e \<in> set old. fireTime e + 100 < t))"
proof -
  let ?c = "scrollButton v 1 (rUp b) (lastBtnUp s) s"
  from scroll_step [OF T lv tq, of v 1 "rUp b"]
  obtain new where n: "adjustTrace ?c = new @ adjustTrace s"
      "timingInv ?c (holdNext (rUp b) tq mu) md (new @ old)"
      "clock s \<le> clock ?c" "\<forall>e \<in> set new. fst e = 1"
      "rUp b = LOW \<and> lastBtnUp s = HIGH \<longrightarrow> (\<exists>t. new = [(1, Initial, t)])"
      "\<forall>t. (1, Repeat, t) \<in> set new \<longrightarrow>
                new = [(1, Repeat, t)] \<and> rUp b = LOW \<and> (\<exists>te. mu = Some te \<and> te + 500 < t) \<and>
                (\<forall>e \<in> set old. fireTime e + 100 < t)"
    by blast
  have u: "upButton v b s = ?c\<lparr>lastBtnUp := rUp b\<rparr>" by (simp add: upButton_def)
  have t: "timingInv (upButton v b s) (holdNext (rUp b) tq mu) md (new @ old)"
    unfolding u by (rule timingInv_frame [OF n(2)]) simp_all
  have l: "lastBtnUp (upButton v b s) = LOW \<longleftrightarrow> holdNext (rUp b) tq mu \<noteq> None"
    unfolding u by (cases "rUp b") (auto simp: holdNext_def split: option.splits)
  show ?thesis
    using n t l unfolding u by (intro exI [of _ new]) (simp add: scrollButton_frame)
qed

lemma downButton_step:
  assumes T: "timingInv s mu md old" and lv: "lastBtnDown s = LOW \<longleftrightarrow> md \<noteq> None"
    and tq: "tq \<le> clock s"
  shows "\<exists>new. adjustTrace (downButton v b s) = new @ adjustTrace s \<and>
           timingInv (downButton v b s) mu (holdNext (rDown b) tq md) (new @ old) \<and>
           clock s \<le> clock (downButton v b s) \<and>
           (lastBtnDown (downButton v b s) = LOW \<longleftrightarrow> holdNext (rDown b) tq md \<noteq> None) \<and>
           lastBtnUp (downButton v b s) = lastBtnUp s \<and>
           (\<forall>e \<in> set new. fst e = - 1) \<and>
           (rDown b = LOW \<and> lastBtnDown s = HIGH \<longrightarrow> (\<exists>t. new = [(- 1, Initial, t)])) \<and>
           (\<forall>t. (- 1, Repeat, t) \<in> set new \<longrightarrow>
                new = [(- 1, Repeat, t)] \<and> rDown b = LOW \<and> (\<exists>te. md = Some te \<and> te + 500 < t) \<and>
                (\<forall>e \<in> set old. fireTime e + 100 < t))"
proof -
  let ?c = "scrollButton v (- 1) (rDown b) (lastBtnDown s) s"
  from scroll_step [OF timingInv_sym [OF T] lv tq, of v "- 1" "rDown b"]
  obtain new where n: "adjustTrace ?c = new @ adjustTrace s"
      "timingInv ?c (holdNext (rDown b) tq md) mu (new @ old)"
      "clock s \<le> clock ?c" "\<forall>e \<in> set new. fst e = - 1"
      "rDown b = LOW \<and> lastBtnDown s = HIGH \<longrightarrow> (\<exists>t. new = [(- 1, Initial, t)])"
      "\<forall>t. (- 1, Repeat, t) \<in> set new \<longrightarrow>
                new = [(- 1, Repeat, t)] \<and> rDown b = LOW \<and> (\<exists>te. md = Some te \<and> te + 500 < t) \<and>
                (\<forall>e \<in> set old. fireTime e + 100 < t)"
    by blast
  have u: "downButton v b s = ?c\<lparr>lastBtnDown := rDown b\<rparr>" by (simp add: downButton_def)
  have t: "timingInv (downButton v b s) mu (holdNext (rDown b) tq md) (new @ old)"
    unfolding u by (rule timingInv_frame [OF timingInv_sym [OF n(2)]]) simp_all
  have l: "lastBtnDown (downButton v b s) = LOW \<longleftrightarrow> holdNext (rDown b) tq md \<noteq> None"
    unfolding u by (cases "rDown b") (auto simp: holdNext_def split: option.splits)
  show ?thesis
    using n t l unfolding u by (intro exI [of _ new]) (simp add: scrollButton_frame)
qed


lemma idle_round_step:
  assumes idle: "\<not> isRunning s" "\<not> (rStart (btn p) = LOW \<and> lastBtnStart s = HIGH)"
    and T: "timingInv s mu md old"
    and lu: "lastBtnUp s = LOW \<longleftrightarrow> mu \<noteq> None"
    and ld: "lastBtnDown s = LOW \<longleftrightarrow> md \<noteq> None"
  shows "\<exists>newU newD.
     adjustTrace (loop v p s) = newD @ newU @ adjustTrace s \<and>
     timingInv (loop v p s) (holdNext (rUp (btn p)) (clock s + idleMs p) mu)
        (holdNext (rDown (btn p)) (clock s + idleMs p) md) (newD @ newU @ old) \<and>
     (lastBtnUp (loop v p s) = LOW \<longleftrightarrow> holdNext (rUp (btn p)) (clock s + idleMs p) mu \<noteq> None) \<and>
     (lastBtnDown (loop v p s) = LOW \<longleftrightarrow>
        holdNext (rDown (btn p)) (clock s + idleMs p) md \<noteq> None) \<and>
     (\<forall>e \<in> set newU. fst e = 1) \<and> (\<forall>e \<in> set newD. fst e = - 1) \<and>
     (rUp (btn p) = LOW \<and> lastBtnUp s = HIGH \<longrightarrow> (\<exists>t. newU = [(1, Initial, t)])) \<and>
     (\<forall>t. (1, Repeat, t) \<in> set newU \<longrightarrow>
          newU = [(1, Repeat, t)] \<and> rUp (btn p) = LOW \<and> (\<exists>te. mu = Some te \<and> te + 500 < t) \<and>
          (\<forall>e \<in> set old. fireTime e + 100 < t)) \<and>
     (rDown (btn p) = LOW \<and> lastBtnDown s = HIGH \<longrightarrow> (\<exists>t. newD = [(- 1, Initial, t)])) \<and>
     (\<forall>t. (- 1, Repeat, t) \<in> set newD \<longrightarrow>
          newD = [(- 1, Repeat, t)] \<and> rDown (btn p) = LOW \<and>
          (\<exists>te. md = Some te \<and> te + 500 < t) \<and>
          (\<forall>e \<in> set (newU @ old). fireTime e + 100 < t))"
proof -
  let ?b = "btn p"
  let ?tq = "clock s + idleMs p"
  let ?s1 = "(delay (idleMs p) s)\<lparr>lastBtnStart := rStart ?b\<rparr>"
  let ?s2 = "menuButton v ?b ?s1"
  let ?s3 = "upButton v ?b ?s2"
  have L: "loop v p s = downButton v ?b ?s3"
    using idle by (rule loop_idle)
  have c1: "clock ?s1 = ?tq" by (simp add: delay_def)
  have c2: "?tq \<le> clock ?s2"
    using menuButton_frame(1) [of ?s1 v ?b] c1 by simp
  have T1: "timingInv ?s1 mu md old"
    by (rule timingInv_frame [OF T]) (simp_all add: delay_def)
  have T2: "timingInv ?s2 mu md old"
    by (rule timingInv_frame [OF T1 menuButton_frame(1-3)])
  have lu2: "lastBtnUp ?s2 = LOW \<longleftrightarrow> mu \<noteq> None"
    using lu by (simp add: menuButton_frame delay_def)
  have ld2: "lastBtnDown ?s2 = lastBtnDown s"
    by (simp add: menuButton_frame delay_def)
  have lu2': "lastBtnUp ?s2 = lastBtnUp s"
    by (simp add: menuButton_frame delay_def)
  have a2: "adjustTrace ?s2 = adjustTrace s"
    by (simp add: menuButton_frame delay_def)
  from upButton_step [OF T2 lu2 c2, of v ?b]
  obtain newU where U: "adjustTrace ?s3 = newU @ adjustTrace ?s2"
      "timingInv ?s3 (holdNext (rUp ?b) ?tq mu) md (newU @ old)"
      "clock ?s2 \<le> clock ?s3"
      "lastBtnUp ?s3 = LOW \<longleftrightarrow> holdNext (rUp ?b) ?tq mu \<noteq> None"
      "lastBtnDown ?s3 = lastBtnDown ?s2"
      "\<forall>e \<in> set newU. fst e = 1"
      "rUp ?b = LOW \<and> lastBtnUp ?s2 = HIGH \<longrightarrow> (\<exists>t. newU = [(1, Initial, t)])"
      "\<forall>t. (1, Repeat, t) \<in> set newU \<longrightarrow>
          newU = [(1, Repeat, t)] \<and> rUp ?b = LOW \<and> (\<exists>te. mu = Some te \<and> te + 500 < t) \<and>
          (\<forall>e \<in> set old. fireTime e + 100 < t)"
    by blast
  have ld3: "lastBtnDown ?s3 = LOW \<longleftrightarrow> md \<noteq> None"
    using U(5) ld2 ld by simp
  have c3: "?tq \<le> clock ?s3" using c2 U(3) by simp
  from downButton_step [OF U(2) ld3 c3, of v ?b]
  obtain newD where D: "adjustTrace (downButton v ?b ?s3) = newD @ adjustTrace ?s3"
      "timingInv (downButton v ?b ?s3) (holdNext (rUp ?b) ?tq mu)
         (holdNext (rDown ?b) ?tq md) (newD @ newU @ old)"
      "lastBtnDown (downButton v ?b ?s3) = LOW \<longleftrightarrow> holdNext (rDown ?b) ?tq md \<noteq> None"
      "lastBtnUp (downButton v ?b ?s3) = lastBtnUp ?s3"
      "\<forall>e \<in> set newD. fst e = - 1"
      "rDown ?b = LOW \<and> lastBtnDown ?s3 = HIGH \<longrightarrow> (\<exists>t. newD = [(- 1, Initial, t)])"
      "\<forall>t. (- 1, Repeat, t) \<in> set newD \<longrightarrow>
          newD = [(- 1, Repeat, t)] \<and> rDown ?b = LOW \<and> (\<exists>te. md = Some te \<and> te + 500 < t) \<and>
          (\<forall>e \<in> set (newU @ old). fireTime e + 100 < t)"
    by blast
  have D6: "rDown ?b = LOW \<and> lastBtnDown s = HIGH \<longrightarrow> (\<exists>t. newD = [(- 1, Initial, t)])"
    using D(6) U(5) ld2 by simp
  have U7: "rUp ?b = LOW \<and> lastBtnUp s = HIGH \<longrightarrow> (\<exists>t. newU = [(1, Initial, t)])"
    using U(7) lu2' by simp
  have A: "adjustTrace (loop v p s) = newD @ newU @ adjustTrace s"
    unfolding L using D(1) U(1) a2 by simp
  have lU: "lastBtnUp (loop v p s) = LOW \<longleftrightarrow> holdNext (rUp ?b) ?tq mu \<noteq> None"
    unfolding L using D(4) U(4) by simp
  show ?thesis
    using A D(2,3,5) [folded L] lU U(6,8) U7 D6 D(7)
    by (intro exI [of _ newU] exI [of _ newD]) blast
qed


lemma holdTrack_snoc: "holdTrack v d (xs @ [x]) s0 = holdStep v d x (holdTrack v d xs s0)"
  by (simp add: holdTrack_def)

lemma rounds_snoc: "rounds v (xs @ [x]) s0 = loop v x (rounds v xs s0)"
  by (simp add: rounds_def)

lemma fst_holdTrack: "fst (holdTrack v d xs s0) = rounds v xs s0"
proof (induction xs rule: rev_induct)
  case Nil
  show ?case by (simp add: holdTrack_def rounds_def)
next
  case (snoc x xs)
  then show ?case by (simp add: holdTrack_snoc rounds_snoc holdStep_def)
qed

lemma snd_holdTrack_snoc:
  "snd (holdTrack v d (xs @ [x]) s0) =
     holdNext (scrollReading d (btn x)) (clock (rounds v xs s0) + idleMs x)
       (snd (holdTrack v d xs s0))"
  by (simp add: holdTrack_snoc holdStep_def fst_holdTrack)

lemma idle_trace:
  "\<not> isRunning s0 \<Longrightarrow> noStartEdge (lastBtnStart s0) xs \<Longrightarrow>
   \<not> isRunning (rounds v xs s0) \<and>
   lastBtnStart (rounds v xs s0) = (if xs = [] then lastBtnStart s0 else rStart (btn (last xs)))"
proof (induction xs arbitrary: s0)
  case Nil
  then show ?case by (simp add: rounds_def)
next
  case (Cons x xs)
  from Cons.prems have e: "\<not> (rStart (btn x) = LOW \<and> lastBtnStart s0 = HIGH)"
    and n: "noStartEdge (rStart (btn x)) xs" by simp_all
  have f: "runtimeEq (loop v x s0) (s0\<lparr>lastBtnStart := rStart (btn x)\<rparr>)"
    using Cons.prems(1) e by (rule loop_idle_frame)
  then have 1: "\<not> isRunning (loop v x s0)" "lastBtnStart (loop v x s0) = rStart (btn x)"
    using Cons.prems(1) by (simp_all add: runtimeEq_def)
  have 2: "noStartEdge (lastBtnStart (loop v x s0)) xs" using n 1 by simp
  have r: "rounds v (x # xs) s0 = rounds v xs (loop v x s0)" by (simp add: rounds_def)
  show ?case using Cons.IH [OF 1(1) 2] 1 unfolding r by simp
qed

lemma noStartEdge_snoc:
  "noStartEdge l (xs @ [p]) \<longleftrightarrow>
     noStartEdge l xs \<and>
     \<not> (rStart (btn p) = LOW \<and> (if xs = [] then l else rStart (btn (last xs))) = HIGH)"
  by (induction xs arbitrary: l) auto

lemma holdTrack_None:
  "snd (holdTrack v d xs s0) = None \<longleftrightarrow> xs = [] \<or> scrollReading d (btn (last xs)) = HIGH"
proof (cases xs rule: rev_cases)
  case Nil
  then show ?thesis by (simp add: holdTrack_def)
next
  case (snoc ys y)
  then show ?thesis
    unfolding snoc snd_holdTrack_snoc
    by (cases "scrollReading d (btn y)") (simp_all add: holdNext_def split: option.splits)
qed

lemma holdTrack_Some:
  "snd (holdTrack v d xs s0) = Some te \<Longrightarrow>
   \<exists>pre q mid. xs = pre @ q # mid \<and> scrollReading d (btn q) = LOW \<and>
      (pre = [] \<or> scrollReading d (btn (last pre)) = HIGH) \<and>
      (\<forall>r \<in> set mid. scrollReading d (btn r) = LOW) \<and>
      te = clock (rounds v pre s0) + idleMs q"
proof (induction xs arbitrary: te rule: rev_induct)
  case Nil
  then show ?case by (simp add: holdTrack_def)
next
  case (snoc x xs)
  let ?m = "snd (holdTrack v d xs s0)"
  from snoc.prems have h: "holdNext (scrollReading d (btn x)) (clock (rounds v xs s0) + idleMs x) ?m
      = Some te"
    by (simp only: snd_holdTrack_snoc)
  then have low: "scrollReading d (btn x) = LOW"
    by (cases "scrollReading d (btn x)") (simp_all add: holdNext_def)
  show ?case
  proof (cases ?m)
    case None
    then have e: "xs = [] \<or> scrollReading d (btn (last xs)) = HIGH"
      by (simp add: holdTrack_None)
    have "te = clock (rounds v xs s0) + idleMs x"
      using h None low by (simp add: holdNext_def)
    then have "xs @ [x] = xs @ x # [] \<and> scrollReading d (btn x) = LOW \<and>
      (xs = [] \<or> scrollReading d (btn (last xs)) = HIGH) \<and>
      (\<forall>r \<in> set []. scrollReading d (btn r) = LOW) \<and>
      te = clock (rounds v xs s0) + idleMs x"
      using low e by simp
    then show ?thesis by blast
  next
    case (Some t0)
    then have "te = t0" using h low by (simp add: holdNext_def)
    with Some snoc.IH [of te] obtain pre q mid where
      d: "xs = pre @ q # mid" "scrollReading d (btn q) = LOW"
        "pre = [] \<or> scrollReading d (btn (last pre)) = HIGH"
        "\<forall>r \<in> set mid. scrollReading d (btn r) = LOW"
        "te = clock (rounds v pre s0) + idleMs q"
      by blast
    have "xs @ [x] = pre @ q # (mid @ [x]) \<and> scrollReading d (btn q) = LOW \<and>
      (pre = [] \<or> scrollReading d (btn (last pre)) = HIGH) \<and>
      (\<forall>r \<in> set (mid @ [x]). scrollReading d (btn r) = LOW) \<and>
      te = clock (rounds v pre s0) + idleMs q"
      using d low by simp
    then show ?thesis by blast
  qed
qed

lemma trace_inv:
  assumes "\<not> isRunning s0" "noStartEdge (lastBtnStart s0) xs"
    "lastBtnUp s0 = HIGH" "lastBtnDown s0 = HIGH"
  shows "\<exists>old. adjustTrace (rounds v xs s0) = old @ adjustTrace s0 \<and>
     timingInv (rounds v xs s0) (snd (holdTrack v 1 xs s0)) (snd (holdTrack v (- 1) xs s0)) old \<and>
     (lastBtnUp (rounds v xs s0) = LOW \<longleftrightarrow> snd (holdTrack v 1 xs s0) \<noteq> None) \<and>
     (lastBtnDown (rounds v xs s0) = LOW \<longleftrightarrow> snd (holdTrack v (- 1) xs s0) \<noteq> None)"
  using assms(2)
proof (induction xs rule: rev_induct)
  case Nil
  show ?case
    using assms(3,4)
    by (intro exI [of _ "[]"]) (simp add: rounds_def holdTrack_def timingInv_def)
next
  case (snoc x xs)
  let ?s = "rounds v xs s0"
  from snoc.prems have n: "noStartEdge (lastBtnStart s0) xs"
    and e: "\<not> (rStart (btn x) = LOW \<and> (if xs = [] then lastBtnStart s0 else rStart (btn (last xs))) = HIGH)"
    by (simp_all add: noStartEdge_snoc)
  from idle_trace [OF assms(1) n, of v] e
  have i: "\<not> isRunning ?s" "\<not> (rStart (btn x) = LOW \<and> lastBtnStart ?s = HIGH)"
    by simp_all
  from snoc.IH [OF n] obtain old where o: "adjustTrace ?s = old @ adjustTrace s0"
      "timingInv ?s (snd (holdTrack v 1 xs s0)) (snd (holdTrack v (- 1) xs s0)) old"
      "lastBtnUp ?s = LOW \<longleftrightarrow> snd (holdTrack v 1 xs s0) \<noteq> None"
      "lastBtnDown ?s = LOW \<longleftrightarrow> snd (holdTrack v (- 1) xs s0) \<noteq> None"
    by blast
  from idle_round_step [OF i o(2,3,4), of v]
  obtain newU newD where
    s: "adjustTrace (loop v x ?s) = newD @ newU @ adjustTrace ?s"
     "timingInv (loop v x ?s) (holdNext (rUp (btn x)) (clock ?s + idleMs x) (snd (holdTrack v 1 xs s0)))
        (holdNext (rDown (btn x)) (clock ?s + idleMs x) (snd (holdTrack v (- 1) xs s0)))
        (newD @ newU @ old)"
     "lastBtnUp (loop v x ?s) = LOW \<longleftrightarrow>
        holdNext (rUp (btn x)) (clock ?s + idleMs x) (snd (holdTrack v 1 xs s0)) \<noteq> None"
     "lastBtnDown (loop v x ?s) = LOW \<longleftrightarrow>
        holdNext (rDown (btn x)) (clock ?s + idleMs x) (snd (holdTrack v (- 1) xs s0)) \<noteq> None"
    by blast
  show ?case
    unfolding rounds_snoc snd_holdTrack_snoc
    using s o(1) by (intro exI [of _ "newD @ newU @ old"]) simp
qed


lemma filter_dir:
  assumes "\<forall>e \<in> set newU. fst e = (1::int)" "\<forall>e \<in> set newD. fst e = (- 1::int)"
  shows "filter (\<lambda>e. fst e = 1) (newD @ newU) = newU"
    and "filter (\<lambda>e. fst e = - 1) (newD @ newU) = newD"
proof -
  have "filter (\<lambda>e. fst e = 1) newU = newU" "filter (\<lambda>e. fst e = 1) newD = []"
    "filter (\<lambda>e. fst e = - 1) newU = []" "filter (\<lambda>e. fst e = - 1) newD = newD"
    using assms by (auto simp: filter_empty_conv filter_id_conv)
  then show "filter (\<lambda>e. fst e = 1) (newD @ newU) = newU"
    and "filter (\<lambda>e. fst e = - 1) (newD @ newU) = newD"
    by simp_all
qed

text \<open>
  What the Up and Down parts of \<^verbatim>\<open>handleButtons\<close> do when they are run in every round.
  Take any sequence of rounds of \<^verbatim>\<open>loop()\<close> during which the system is not running,
  starting with both scroll buttons stored as released, and look at its last round. For
  the Up button (\<open>d = 1\<close>) and for the Down button (\<open>d = -1\<close>): if the button reads \<open>LOW\<close>
  in that round and did not in the round before (a press-edge), the round makes exactly
  one call of \<^verbatim>\<open>adjustSetting\<close> for it, from the press-edge branch; if the round makes a
  call from the held branch (a repeat) at time \<open>t\<close>, the button has read \<open>LOW\<close> in every
  round since a press-edge round whose buttons were read more than 500 ms before \<open>t\<close>,
  and every call made before it, in earlier rounds or in the same round, was made more
  than 100 ms before \<open>t\<close>.
\<close>

lemma fast_scroll_timing:
  assumes "\<not> isRunning s0" "noStartEdge (lastBtnStart s0) (inps @ [p])"
    "lastBtnUp s0 = HIGH" "lastBtnDown s0 = HIGH" "d = 1 \<or> d = - 1"
  shows "\<exists>new old.
      adjustTrace (rounds v inps s0) = old @ adjustTrace s0 \<and>
      adjustTrace (rounds v (inps @ [p]) s0) = new @ old @ adjustTrace s0 \<and>
      (scrollReading d (btn p) = LOW \<and>
       (inps = [] \<or> scrollReading d (btn (last inps)) = HIGH) \<longrightarrow>
          (\<exists>t. filter (\<lambda>e. fst e = d) new = [(d, Initial, t)])) \<and>
      (\<forall>t. (d, Repeat, t) \<in> set new \<longrightarrow>
          (\<exists>pre q mid. inps @ [p] = pre @ q # mid \<and> scrollReading d (btn q) = LOW \<and>
              (pre = [] \<or> scrollReading d (btn (last pre)) = HIGH) \<and>
              (\<forall>r \<in> set mid. scrollReading d (btn r) = LOW) \<and>
              clock (rounds v pre s0) + idleMs q + 500 < t) \<and>
          (\<forall>(d', k, t') \<in> set old. t' + 100 < t) \<and>
          (\<forall>ys zs. new @ old = ys @ (d, Repeat, t) # zs \<longrightarrow>
               (\<forall>(d', k, t') \<in> set zs. t' + 100 < t)))"
proof -
  let ?s = "rounds v inps s0"
  let ?mu = "snd (holdTrack v 1 inps s0)"
  let ?md = "snd (holdTrack v (- 1) inps s0)"
  from assms(2) have n: "noStartEdge (lastBtnStart s0) inps"
    and e: "\<not> (rStart (btn p) = LOW \<and>
        (if inps = [] then lastBtnStart s0 else rStart (btn (last inps))) = HIGH)"
    by (simp_all add: noStartEdge_snoc)
  from idle_trace [OF assms(1) n, of v] e
  have i: "\<not> isRunning ?s" "\<not> (rStart (btn p) = LOW \<and> lastBtnStart ?s = HIGH)"
    by simp_all
  from trace_inv [OF assms(1) n assms(3,4), of v]
  obtain old where o: "adjustTrace ?s = old @ adjustTrace s0"
      "timingInv ?s ?mu ?md old"
      "lastBtnUp ?s = LOW \<longleftrightarrow> ?mu \<noteq> None"
      "lastBtnDown ?s = LOW \<longleftrightarrow> ?md \<noteq> None"
    by blast
  from idle_round_step [OF i o(2,3,4), of v]
  obtain newU newD where
    s: "adjustTrace (loop v p ?s) = newD @ newU @ adjustTrace ?s"
      "\<forall>e \<in> set newU. fst e = 1" "\<forall>e \<in> set newD. fst e = - 1"
      "rUp (btn p) = LOW \<and> lastBtnUp ?s = HIGH \<longrightarrow> (\<exists>t. newU = [(1, Initial, t)])"
      "\<forall>t. (1, Repeat, t) \<in> set newU \<longrightarrow>
          newU = [(1, Repeat, t)] \<and> rUp (btn p) = LOW \<and>
          (\<exists>te. ?mu = Some te \<and> te + 500 < t) \<and>
          (\<forall>e \<in> set old. fireTime e + 100 < t)"
      "rDown (btn p) = LOW \<and> lastBtnDown ?s = HIGH \<longrightarrow> (\<exists>t. newD = [(- 1, Initial, t)])"
      "\<forall>t. (- 1, Repeat, t) \<in> set newD \<longrightarrow>
          newD = [(- 1, Repeat, t)] \<and> rDown (btn p) = LOW \<and>
          (\<exists>te. ?md = Some te \<and> te + 500 < t) \<and>
          (\<forall>e \<in> set (newU @ old). fireTime e + 100 < t)"
    by blast
  have A: "adjustTrace (rounds v (inps @ [p]) s0) = (newD @ newU) @ old @ adjustTrace s0"
    using s(1) o(1) by (simp add: rounds_snoc)
  have dec: "\<exists>pre q mid. inps @ [p] = pre @ q # mid \<and> scrollReading c (btn q) = LOW \<and>
              (pre = [] \<or> scrollReading c (btn (last pre)) = HIGH) \<and>
              (\<forall>r \<in> set mid. scrollReading c (btn r) = LOW) \<and>
              clock (rounds v pre s0) + idleMs q + 500 < t"
    if "snd (holdTrack v c inps s0) = Some te" "te + 500 < t" "scrollReading c (btn p) = LOW"
    for c te t
  proof -
    from holdTrack_Some [OF that(1)] obtain pre q mid where
      d: "inps = pre @ q # mid" "scrollReading c (btn q) = LOW"
        "pre = [] \<or> scrollReading c (btn (last pre)) = HIGH"
        "\<forall>r \<in> set mid. scrollReading c (btn r) = LOW"
        "te = clock (rounds v pre s0) + idleMs q"
      by blast
    have "inps @ [p] = pre @ q # (mid @ [p]) \<and> scrollReading c (btn q) = LOW \<and>
              (pre = [] \<or> scrollReading c (btn (last pre)) = HIGH) \<and>
              (\<forall>r \<in> set (mid @ [p]). scrollReading c (btn r) = LOW) \<and>
              clock (rounds v pre s0) + idleMs q + 500 < t"
      using d that(2,3) by simp
    then show ?thesis by blast
  qed
  have gap: "\<forall>(d', k, t') \<in> set zs. t' + 100 < t"
    if "\<forall>e \<in> set zs. fireTime e + 100 < t" for zs t
    using that by (auto simp: fireTime_def)
  from assms(5) show ?thesis
  proof
    assume d: "d = 1"
    have a: "\<exists>t. filter (\<lambda>e. fst e = d) (newD @ newU) = [(d, Initial, t)]"
      if "scrollReading d (btn p) = LOW"
        "inps = [] \<or> scrollReading d (btn (last inps)) = HIGH"
    proof -
      have "?mu = None" using that(2) d by (simp only: holdTrack_None)
      then have "lastBtnUp ?s = HIGH" using o(3) by (cases "lastBtnUp ?s") simp_all
      then show ?thesis
        using s(4) that(1) d filter_dir(1) [OF s(2,3)] by simp
    qed
    have b: "(\<exists>pre q mid. inps @ [p] = pre @ q # mid \<and> scrollReading d (btn q) = LOW \<and>
              (pre = [] \<or> scrollReading d (btn (last pre)) = HIGH) \<and>
              (\<forall>r \<in> set mid. scrollReading d (btn r) = LOW) \<and>
              clock (rounds v pre s0) + idleMs q + 500 < t) \<and>
          (\<forall>(d', k, t') \<in> set old. t' + 100 < t) \<and>
          (\<forall>ys zs. (newD @ newU) @ old = ys @ (d, Repeat, t) # zs \<longrightarrow>
               (\<forall>(d', k, t') \<in> set zs. t' + 100 < t))"
      if "(d, Repeat, t) \<in> set (newD @ newU)" for t
    proof -
      have "(1, Repeat, t) \<in> set newU" using that d s(3) by auto
      with s(5) obtain te where r: "rUp (btn p) = LOW" "?mu = Some te" "te + 500 < t"
          "\<forall>e \<in> set old. fireTime e + 100 < t" "newU = [(1, Repeat, t)]"
        by blast
      have n1: "(1, Repeat, t) \<notin> set newD" using s(3) by auto
      have n2: "(1, Repeat, t) \<notin> set old" using r(4) by (auto simp: fireTime_def)
      have u: "\<forall>(d', k, t') \<in> set zs. t' + 100 < t"
        if e: "(newD @ newU) @ old = ys @ (1, Repeat, t) # zs" for ys zs
      proof -
        have "newD @ (1, Repeat, t) # old = ys @ (1, Repeat, t) # zs"
          using e r(5) by simp
        then have "old = zs"
          by (simp add: append_Cons_eq_iff [OF n1 n2])
        then show ?thesis using gap [of old t] r(4) by simp
      qed
      have "\<forall>ys zs. (newD @ newU) @ old = ys @ (d, Repeat, t) # zs \<longrightarrow>
               (\<forall>(d', k, t') \<in> set zs. t' + 100 < t)"
        using u d by blast
      then show ?thesis
        using dec [of 1 te t] r(1-3) gap [of old t] r(4) d by simp
    qed
    show ?thesis
      using o(1) A a b by (intro exI [of _ "newD @ newU"] exI [of _ old]) blast
  next
    assume d: "d = - 1"
    have a: "\<exists>t. filter (\<lambda>e. fst e = d) (newD @ newU) = [(d, Initial, t)]"
      if "scrollReading d (btn p) = LOW"
        "inps = [] \<or> scrollReading d (btn (last inps)) = HIGH"
    proof -
      have "?md = None" using that(2) d by (simp only: holdTrack_None)
      then have "lastBtnDown ?s = HIGH" using o(4) by (cases "lastBtnDown ?s") simp_all
      then show ?thesis
        using s(6) that(1) d filter_dir(2) [OF s(2,3)] by simp
    qed
    have b: "(\<exists>pre q mid. inps @ [p] = pre @ q # mid \<and> scrollReading d (btn q) = LOW \<and>
              (pre = [] \<or> scrollReading d (btn (last pre)) = HIGH) \<and>
              (\<forall>r \<in> set mid. scrollReading d (btn r) = LOW) \<and>
              clock (rounds v pre s0) + idleMs q + 500 < t) \<and>
          (\<forall>(d', k, t') \<in> set old. t' + 100 < t) \<and>
          (\<forall>ys zs. (newD @ newU) @ old = ys @ (d, Repeat, t) # zs \<longrightarrow>
               (\<forall>(d', k, t') \<in> set zs. t' + 100 < t))"
      if "(d, Repeat, t) \<in> set (newD @ newU)" for t
    proof -
      have "(- 1, Repeat, t) \<in> set newD" using that d s(2) by auto
      with s(7) obtain te where r: "rDown (btn p) = LOW" "?md = Some te" "te + 500 < t"
          "\<forall>e \<in> set (newU @ old). fireTime e + 100 < t" "newD = [(- 1, Repeat, t)]"
        by blast
      have n1: "(- 1, Repeat, t) \<notin> set []" by simp
      have n2: "(- 1, Repeat, t) \<notin> set (newU @ old)"
      proof
        assume "(- 1, Repeat, t) \<in> set (newU @ old)"
        with r(4) have "fireTime (- 1, Repeat, t) + 100 < t" by blast
        then show False by (simp add: fireTime_def)
      qed
      have o4: "\<forall>e \<in> set old. fireTime e + 100 < t" using r(4) by simp
      have u: "\<forall>(d', k, t') \<in> set zs. t' + 100 < t"
        if e: "(newD @ newU) @ old = ys @ (- 1, Repeat, t) # zs" for ys zs
      proof -
        have "[] @ (- 1, Repeat, t) # (newU @ old) = ys @ (- 1, Repeat, t) # zs"
          using e r(5) by simp
        then have "newU @ old = zs"
          by (simp only: append_Cons_eq_iff [OF n1 n2])
        then show ?thesis using gap [of "newU @ old" t] r(4) by simp
      qed
      have "\<forall>ys zs. (newD @ newU) @ old = ys @ (d, Repeat, t) # zs \<longrightarrow>
               (\<forall>(d', k, t') \<in> set zs. t' + 100 < t)"
        using u d by blast
      then show ?thesis
        using dec [of "- 1" te t] r(1-3) gap [of old t] o4 d by simp
    qed
    show ?thesis
      using o(1) A a b by (intro exI [of _ "newD @ newU"] exI [of _ old]) blast
  qed
qed

lemma fast_scroll_timing_holdUp:
  "adjustTrace (rounds EnhancedUI holdUp (powerOn EnhancedUI))
     = [(1, Repeat, 2330), (1, Initial, 1710)] \<and>
   (\<exists>pre q mid. holdUp = pre @ q # mid \<and> scrollReading 1 (btn q) = LOW \<and>
      clock (rounds EnhancedUI pre (powerOn EnhancedUI)) + idleMs q + 500 < 2330)"
proof -
  let ?s0 = "powerOn EnhancedUI"
  let ?inps = "take 2 holdUp"
  let ?p = "holdUp ! 2"
  have sp: "?inps @ [?p] = holdUp" by (simp add: holdUp_def)
  have 1: "\<not> isRunning ?s0" by (simp add: eval_defs)
  have 2: "noStartEdge (lastBtnStart ?s0) (?inps @ [?p])"
    unfolding sp by (simp add: holdUp_def poll_def released_def)
  have 3: "lastBtnUp ?s0 = HIGH" "lastBtnDown ?s0 = HIGH" by (simp_all add: eval_defs)
  have 4: "(1::int) = 1 \<or> (1::int) = - 1" by simp
  have a0: "adjustTrace ?s0 = []" by (simp add: eval_defs)
  have a1: "adjustTrace (rounds EnhancedUI ?inps ?s0) = [(1, Initial, 1710)]"
    by (simp add: holdUp_def eval_defs)
  have a2: "adjustTrace (rounds EnhancedUI holdUp ?s0) = [(1, Repeat, 2330), (1, Initial, 1710)]"
    by (simp add: holdUp_def eval_defs)
  from fast_scroll_timing [OF 1 2 3 4, of EnhancedUI]
  obtain new old where
    t: "adjustTrace (rounds EnhancedUI ?inps ?s0) = old @ adjustTrace ?s0"
      "adjustTrace (rounds EnhancedUI (?inps @ [?p]) ?s0) = new @ old @ adjustTrace ?s0"
      "\<forall>t. (1, Repeat, t) \<in> set new \<longrightarrow>
          (\<exists>pre q mid. ?inps @ [?p] = pre @ q # mid \<and> scrollReading 1 (btn q) = LOW \<and>
              (pre = [] \<or> scrollReading 1 (btn (last pre)) = HIGH) \<and>
              (\<forall>r \<in> set mid. scrollReading 1 (btn r) = LOW) \<and>
              clock (rounds EnhancedUI pre ?s0) + idleMs q + 500 < t) \<and>
          (\<forall>(d', k, t') \<in> set old. t' + 100 < t)"
    by blast
  have o: "old = [(1, Initial, 1710)]" using t(1) a0 a1 by simp
  have n: "new = [(1, Repeat, 2330)]" using t(2) a0 a2 o unfolding sp by simp
  have "(1, Repeat, 2330) \<in> set new" using n by simp
  with t(3) have "\<exists>pre q mid. holdUp = pre @ q # mid \<and> scrollReading 1 (btn q) = LOW \<and>
      clock (rounds EnhancedUI pre ?s0) + idleMs q + 500 < 2330"
    unfolding sp by blast
  then show ?thesis using a2 by simp
qed

text \<open>
  C9. Claim: in every trace of polls of an adjustment button a press-edge fires
  exactly one adjustment and never a repeat, and a repeat fires only after the button
  has been held for 500 ms since its press-edge. The Up and Down parts of the sketch do
  that as long as they are run in every round (\<open>fast_scroll_timing\<close>), but while the
  system is running \<^verbatim>\<open>handleButtons\<close> returns before them and so before
  \<^verbatim>\<open>lastBtnUp = rUp\<close>: a level stored at the start of a run is still stored when the run
  is over. The theorem runs the Enhanced UI sketch through the script in which Up is
  held when Start is pressed and is released during the run. The run finishes by
  itself at 272300 ms with Up still stored as \<open>LOW\<close>. Up is pressed again and read at
  272310 ms: that round makes a call from the held branch at 272310 ms, and the round
  150 ms later makes another, so the fresh press fires two repeats and no press-edge
  call. In the second script, in both sketches, Up is pressed again in the round that
  stops the run, after a round in which it read released, and that round makes a call
  from the held branch.
\<close>

theorem stale_level_repeats_at_once:
  "map (\<lambda>i. rUp (btn i)) staleAfterDone
     = [HIGH, HIGH, HIGH, LOW, LOW, HIGH, HIGH, HIGH, HIGH, LOW, LOW] \<and>
   \<not> isRunning (rounds EnhancedUI (take 9 staleAfterDone) (powerOn EnhancedUI)) \<and>
   isFinished (rounds EnhancedUI (take 9 staleAfterDone) (powerOn EnhancedUI)) \<and>
   clock (rounds EnhancedUI (take 9 staleAfterDone) (powerOn EnhancedUI)) = 272300 \<and>
   lastBtnUp (rounds EnhancedUI (take 9 staleAfterDone) (powerOn EnhancedUI)) = LOW \<and>
   adjustTrace (rounds EnhancedUI (take 9 staleAfterDone) (powerOn EnhancedUI))
     = [(1, Initial, 1960), (- 1, Initial, 1710)] \<and>
   adjustTrace (rounds EnhancedUI (take 10 staleAfterDone) (powerOn EnhancedUI))
     = [(1, Repeat, 272310), (1, Initial, 1960), (- 1, Initial, 1710)] \<and>
   adjustTrace (rounds EnhancedUI staleAfterDone (powerOn EnhancedUI))
     = [(1, Repeat, 272460), (1, Repeat, 272310), (1, Initial, 1960), (- 1, Initial, 1710)] \<and>
   setMinutes (rounds EnhancedUI (take 9 staleAfterDone) (powerOn EnhancedUI)) = 2 \<and>
   setMinutes (rounds EnhancedUI staleAfterDone (powerOn EnhancedUI)) = 4 \<and>
   rUp (btn (staleScript ! 2)) = HIGH \<and> rUp (btn (staleScript ! 3)) = LOW \<and>
   adjustTrace (rounds EnhancedUI (take 3 staleScript) (powerOn EnhancedUI))
     = [(1, Initial, 1710)] \<and>
   adjustTrace (rounds EnhancedUI staleScript (powerOn EnhancedUI))
     = [(1, Repeat, 3264), (1, Initial, 1710)] \<and>
   adjustTrace (rounds FastScroll (take 3 staleScript) (powerOn FastScroll))
     = [(1, Initial, 1210)] \<and>
   adjustTrace (rounds FastScroll staleScript (powerOn FastScroll))
     = [(1, Repeat, 2764), (1, Initial, 1210)]"
  by (simp add: staleAfterDone_def staleScript_def eval_defs)

end
